theory Spec2Isabelle
  imports
    Complex_Main
    "HOL-Library.AList"
    "HOL-Library.Sublist"
    "HOL-Library.Char_ord"
    "HOL-Library.List_Lexorder"
begin

section \<open>Audio engine: data model\<close>

text \<open>
  Constants of \<^verbatim>\<open>settings.py\<close>: the engine's sample rate and channel count.
\<close>

definition SAMPLE_RATE :: nat where
  "SAMPLE_RATE = 48000"

definition CHANNELS :: nat where
  "CHANNELS = 2"

text \<open>
  What \<^verbatim>\<open>sf.read\<close> hands back: a one-dimensional array (a mono file) or a
  two-dimensional array of shape (frames, channels). The column count is kept beside the
  rows, so that an array without frames still has a shape. The type \<open>'a\<close> of a sample
  stands for \<^verbatim>\<open>float32\<close>: nothing is assumed about it, and its arithmetic is a
  parameter (see \<open>backend\<close>).
\<close>

datatype 'a ndarray = Arr1 "'a list" | Arr2 nat "'a list list"

text \<open>A two-dimensional sample buffer, as every branch of \<^verbatim>\<open>load_audio\<close> produces.\<close>

datatype 'a pcm = Pcm (ncols: nat) (rows: "'a list list")

definition len :: "'a pcm \<Rightarrow> nat" where
  "len a = length (rows a)"

text \<open>
  The library calls of the engine are parameters of the model. Two are the calls of
  \<^verbatim>\<open>load_audio\<close>: \<^verbatim>\<open>sf.read(path, dtype='float32')\<close> and
  \<^verbatim>\<open>samplerate.resample(samples, ratio, 'sinc_best')\<close> followed by
  \<^verbatim>\<open>astype(np.float32)\<close>; \<open>None\<close> stands for a raised exception. Three are
  numpy's \<^verbatim>\<open>float32\<close> arithmetic in the mix callback, element by element: the zero
  of \<^verbatim>\<open>np.zeros\<close>, the product of a sample with a gain (a \<^verbatim>\<open>float32\<close>
  array times a Python float) and the sum of two samples. Whatever these operations
  round or overflow to is their business: no law of arithmetic is assumed of them.

  A gain is a Python float that the engine only stores, compares and hands to the
  product: it is the real number it denotes.
\<close>

record 'a backend =
  sf_read :: "string \<Rightarrow> ('a ndarray \<times> nat) option"
  resample :: "'a pcm \<Rightarrow> real \<Rightarrow> 'a pcm option"
  f32_zero :: 'a
  f32_scale :: "'a \<Rightarrow> real \<Rightarrow> 'a"
  f32_add :: "'a \<Rightarrow> 'a \<Rightarrow> 'a"

text \<open>One entry of \<^verbatim>\<open>active_sounds\<close>.\<close>

record 'a sound_data =
  samples :: "'a pcm"
  position :: nat
  volume :: real
  file_path :: string
  paused :: bool

text \<open>
  The fields of \<^verbatim>\<open>AudioPlayer\<close> that the engine's operations read or write.
  \<^verbatim>\<open>active_sounds\<close> is a dictionary, iterated in insertion order: an association
  list with one entry per key.
\<close>

record 'a audio_player =
  active_sounds :: "(int \<times> 'a sound_data) list"
  sound_id_counter :: int
  master_volume :: real
  is_playing :: bool
  audio_cache :: "string \<rightharpoonup> 'a pcm"

definition player_init :: "'a audio_player" where
  "player_init = \<lparr>active_sounds = [], sound_id_counter = 0, master_volume = 1,
     is_playing = False, audio_cache = Map.empty\<rparr>"

section \<open>Audio engine: loading\<close>

text \<open>\<^verbatim>\<open>np.column_stack([samples, samples])\<close> on a 1-D and on a 2-D array.\<close>

fun column_stack_twice :: "'a ndarray \<Rightarrow> 'a pcm" where
  "column_stack_twice (Arr1 xs) = Pcm 2 (map (\<lambda>x. [x, x]) xs)"
| "column_stack_twice (Arr2 c rs) = Pcm (c + c) (map (\<lambda>r. r @ r) rs)"

text \<open>
  The block under the comment \<^verbatim>\<open># Ensure stereo\<close>: a 1-D array and an array of
  shape (n, 1) are stacked twice; every other array is left as it is.
\<close>

fun ensure_stereo :: "'a ndarray \<Rightarrow> 'a pcm" where
  "ensure_stereo (Arr1 xs) = column_stack_twice (Arr1 xs)"
| "ensure_stereo (Arr2 c rs) =
     (if c = 1 then column_stack_twice (Arr2 c rs) else Pcm c rs)"

text \<open>
  The resampling step. \<^verbatim>\<open>SAMPLE_RATE / source_rate\<close> raises on a zero rate,
  and the \<^verbatim>\<open>except\<close> clause turns every exception into \<open>None\<close>.
\<close>

definition resample_if_needed :: "'a backend \<Rightarrow> 'a pcm \<Rightarrow> nat \<Rightarrow> 'a pcm option" where
  "resample_if_needed env smp source_rate =
     (if source_rate \<noteq> SAMPLE_RATE
      then (if source_rate = 0 then None
            else resample env smp (real SAMPLE_RATE / real source_rate))
      else Some smp)"

text \<open>
  \<^verbatim>\<open>load_audio\<close>: a cached path is answered from the cache; otherwise the file is
  decoded, made stereo, resampled and cached. A failure returns \<open>None\<close> and caches
  nothing.
\<close>

definition load_audio ::
  "'a backend \<Rightarrow> 'a audio_player \<Rightarrow> string \<Rightarrow> 'a pcm option \<times> 'a audio_player" where
  "load_audio env s path =
     (case audio_cache s path of
        Some cached \<Rightarrow> (Some cached, s)
      | None \<Rightarrow>
          (case sf_read env path of
             None \<Rightarrow> (None, s)
           | Some (raw, source_rate) \<Rightarrow>
               (case resample_if_needed env (ensure_stereo raw) source_rate of
                  None \<Rightarrow> (None, s)
                | Some smp \<Rightarrow>
                    (Some smp, s\<lparr>audio_cache := (audio_cache s)(path \<mapsto> smp)\<rparr>))))"

definition clear_cache :: "'a audio_player \<Rightarrow> 'a audio_player" where
  "clear_cache s = s\<lparr>audio_cache := Map.empty\<rparr>"

section \<open>Audio engine: transport\<close>

text \<open>
  \<^verbatim>\<open>play_sound\<close>. The body under \<^verbatim>\<open>with self.lock\<close> is one transition of
  the model: the table is cleared (when \<open>overlap\<close> is false) and the new voice is added
  in the same step.
\<close>

definition play_sound ::
  "'a backend \<Rightarrow> 'a audio_player \<Rightarrow> string \<Rightarrow> real \<Rightarrow> bool
     \<Rightarrow> int option \<times> 'a audio_player" where
  "play_sound env s path vol overlap =
     (case load_audio env s path of
        (None, s1) \<Rightarrow> (None, s1)
      | (Some smp, s1) \<Rightarrow>
          (let tbl = (if \<not> overlap then [] else active_sounds s1);
               sound_id = sound_id_counter s1 + 1;
               entry = \<lparr>samples = smp, position = 0, volume = vol,
                        file_path = path, paused = False\<rparr>
           in (Some sound_id,
               s1\<lparr>active_sounds := AList.update sound_id entry tbl,
                  sound_id_counter := sound_id,
                  is_playing := True\<rparr>)))"

definition toggle_pause_sound :: "'a audio_player \<Rightarrow> int \<Rightarrow> 'a audio_player \<times> bool" where
  "toggle_pause_sound s sound_id =
     (case map_of (active_sounds s) sound_id of
        Some sd \<Rightarrow>
          (s\<lparr>active_sounds :=
               AList.update sound_id (sd\<lparr>paused := \<not> paused sd\<rparr>) (active_sounds s)\<rparr>,
           \<not> paused sd)
      | None \<Rightarrow> (s, False))"

definition stop_sound :: "'a audio_player \<Rightarrow> int \<Rightarrow> 'a audio_player" where
  "stop_sound s sound_id =
     (let tbl = (if sound_id \<in> fst ` set (active_sounds s)
                 then AList.delete sound_id (active_sounds s) else active_sounds s)
      in s\<lparr>active_sounds := tbl, is_playing := (length tbl > 0)\<rparr>)"

definition set_sound_volume :: "'a audio_player \<Rightarrow> int \<Rightarrow> real \<Rightarrow> 'a audio_player" where
  "set_sound_volume s sound_id vol =
     (case map_of (active_sounds s) sound_id of
        Some sd \<Rightarrow>
          s\<lparr>active_sounds := AList.update sound_id (sd\<lparr>volume := vol\<rparr>) (active_sounds s)\<rparr>
      | None \<Rightarrow> s)"

definition stop_all :: "'a audio_player \<Rightarrow> 'a audio_player" where
  "stop_all s = s\<lparr>active_sounds := [], is_playing := False\<rparr>"

definition set_master_volume :: "'a audio_player \<Rightarrow> real \<Rightarrow> 'a audio_player" where
  "set_master_volume s vol = s\<lparr>master_volume := max 0 (min 2 vol)\<rparr>"

section \<open>Audio engine: the mix callback\<close>

datatype py_error = ValueError

text \<open>
  \<^verbatim>\<open>samples[position:position + to_copy] * volume * self.master_volume\<close>:
  the slice, each sample multiplied by the voice's gain and the product by the master
  gain, both in \<^verbatim>\<open>float32\<close>.
\<close>

definition scaled_chunk :: "'a backend \<Rightarrow> 'a sound_data \<Rightarrow> nat \<Rightarrow> real \<Rightarrow> 'a pcm" where
  "scaled_chunk env sd to_copy master =
     Pcm (ncols (samples sd))
       (map (map (\<lambda>x. f32_scale env (f32_scale env x (volume sd)) master))
          (take to_copy (drop (position sd) (rows (samples sd)))))"

text \<open>The \<^verbatim>\<open>float32\<close> sum of two rows, element by element.\<close>

definition add_rows :: "'a backend \<Rightarrow> 'a list \<Rightarrow> 'a list \<Rightarrow> 'a list" where
  "add_rows env m c = map2 (f32_add env) m c"

text \<open>
  \<^verbatim>\<open>mixed[:to_copy] += chunk\<close>, where \<open>mixed\<close> has \<open>CHANNELS\<close> columns and the
  chunk has \<open>to_copy\<close> rows. numpy adds a chunk of \<open>CHANNELS\<close> columns element by
  element, broadcasts a chunk of one column to every channel, and raises
  \<^verbatim>\<open>ValueError\<close> for any other column count.
\<close>

definition iadd_prefix ::
  "'a backend \<Rightarrow> 'a list list \<Rightarrow> 'a pcm \<Rightarrow> py_error + 'a list list" where
  "iadd_prefix env mixed chunk =
     (let n = length (rows chunk) in
      if ncols chunk = CHANNELS
      then Inr (map2 (add_rows env) (take n mixed) (rows chunk) @ drop n mixed)
      else if ncols chunk = 1
      then Inr (map2 (add_rows env) (take n mixed)
                  (map (\<lambda>r. concat (replicate CHANNELS r)) (rows chunk)) @ drop n mixed)
      else Inl ValueError)"

text \<open>
  The body of the loop for one voice. The result is the voice as the loop leaves it, the
  mix buffer, and whether the voice's identifier goes to \<^verbatim>\<open>finished_ids\<close>.
  A paused voice is skipped by \<^verbatim>\<open>continue\<close>, before the end-of-buffer test.
\<close>

definition mix_one ::
  "'a backend \<Rightarrow> real \<Rightarrow> nat \<Rightarrow> 'a sound_data \<Rightarrow> 'a list list
     \<Rightarrow> py_error + ('a sound_data \<times> 'a list list \<times> bool)" where
  "mix_one env master frames sd mixed =
     (if paused sd then Inr (sd, mixed, False)
      else
        (let remaining = int (len (samples sd)) - int (position sd);
             to_copy = min (int frames) remaining
         in if to_copy > 0
            then (case iadd_prefix env mixed (scaled_chunk env sd (nat to_copy) master) of
                    Inl e \<Rightarrow> Inl e
                  | Inr mixed' \<Rightarrow>
                      (let sd' = sd\<lparr>position := position sd + nat to_copy\<rparr>
                       in Inr (sd', mixed', position sd' \<ge> len (samples sd'))))
            else Inr (sd, mixed, position sd \<ge> len (samples sd))))"

text \<open>
  The loop over \<^verbatim>\<open>self.active_sounds.items()\<close>. An exception leaves the loop at
  once: the voices before it keep their new cursors, the others are untouched.
\<close>

fun mix_loop ::
  "'a backend \<Rightarrow> real \<Rightarrow> nat \<Rightarrow> (int \<times> 'a sound_data) list \<Rightarrow> 'a list list
     \<Rightarrow> (int \<times> 'a sound_data) list \<times> (py_error + ('a list list \<times> int list))" where
  "mix_loop env master frames [] mixed = ([], Inr (mixed, []))"
| "mix_loop env master frames ((sid, sd) # rest) mixed =
     (case mix_one env master frames sd mixed of
        Inl e \<Rightarrow> ((sid, sd) # rest, Inl e)
      | Inr (sd', mixed', fin) \<Rightarrow>
          (case mix_loop env master frames rest mixed' of
             (rest', Inl e) \<Rightarrow> ((sid, sd') # rest', Inl e)
           | (rest', Inr (out, fins)) \<Rightarrow>
               ((sid, sd') # rest', Inr (out, (if fin then [sid] else []) @ fins))))"

text \<open>
  \<^verbatim>\<open>_audio_callback\<close>: the state after the call, and the block written to
  \<^verbatim>\<open>outdata\<close> or the exception that left the callback.
\<close>

definition audio_callback ::
  "'a backend \<Rightarrow> 'a audio_player \<Rightarrow> nat \<Rightarrow> 'a audio_player \<times> (py_error + 'a list list)" where
  "audio_callback env s frames =
     (let mixed = replicate frames (replicate CHANNELS (f32_zero env))
      in case mix_loop env (master_volume s) frames (active_sounds s) mixed of
           (tbl, Inl e) \<Rightarrow> (s\<lparr>active_sounds := tbl\<rparr>, Inl e)
         | (tbl, Inr (out, finished_ids)) \<Rightarrow>
             (let tbl' = foldl (\<lambda>t i. AList.delete i t) tbl finished_ids
              in (s\<lparr>active_sounds := tbl', is_playing := (length tbl' > 0)\<rparr>, Inr out)))"

section \<open>Audio engine: runs\<close>

text \<open>The calls a client or the output device can make on the engine.\<close>

datatype cmd =
    Play string real bool
  | TogglePause int
  | Stop int
  | SetVolume int real
  | StopAll
  | SetMaster real
  | ClearCache
  | Callback nat

text \<open>One call: the new state and the identifier \<open>play_sound\<close> returned, if any.\<close>

fun step_player ::
  "'a backend \<Rightarrow> 'a audio_player \<Rightarrow> cmd \<Rightarrow> 'a audio_player \<times> int option" where
  "step_player env s (Play path vol overlap) =
     (case play_sound env s path vol overlap of (r, s') \<Rightarrow> (s', r))"
| "step_player env s (TogglePause i) = (fst (toggle_pause_sound s i), None)"
| "step_player env s (Stop i) = (stop_sound s i, None)"
| "step_player env s (SetVolume i v) = (set_sound_volume s i v, None)"
| "step_player env s StopAll = (stop_all s, None)"
| "step_player env s (SetMaster v) = (set_master_volume s v, None)"
| "step_player env s ClearCache = (clear_cache s, None)"
| "step_player env s (Callback frames) = (fst (audio_callback env s frames), None)"

text \<open>A sequence of calls: the final state and the identifiers returned on the way.\<close>

fun run_player ::
  "'a backend \<Rightarrow> 'a audio_player \<Rightarrow> cmd list \<Rightarrow> 'a audio_player \<times> int list" where
  "run_player env s [] = (s, [])"
| "run_player env s (c # cs) =
     (case step_player env s c of
        (s', r) \<Rightarrow>
          (case run_player env s' cs of
             (s'', ids) \<Rightarrow> (s'', (case r of None \<Rightarrow> [] | Some i \<Rightarrow> [i]) @ ids)))"

text \<open>An identifier that the counter has passed and that is not in the table.\<close>

definition stale :: "'a audio_player \<Rightarrow> int \<Rightarrow> bool" where
  "stale s j = (j \<le> sound_id_counter s \<and> j \<notin> fst ` set (active_sounds s))"

section \<open>What the mix callback is to compute\<close>

text \<open>
  What one voice does to the sample of frame \<open>j\<close>, channel \<open>c\<close> of a block of
  \<open>frames\<close> frames. In the first \<open>min frames remaining\<close> frames of a voice that is
  not paused, the sample at the cursor plus \<open>j\<close> is multiplied by the voice's gain,
  the product by the master gain, and the result is added to what has been mixed so far;
  otherwise the mixed sample is left as it is.
\<close>

definition mix_in ::
  "'a backend \<Rightarrow> real \<Rightarrow> nat \<Rightarrow> nat \<Rightarrow> nat \<Rightarrow> 'a \<Rightarrow> 'a sound_data \<Rightarrow> 'a" where
  "mix_in env master frames j c acc sd =
     (if \<not> paused sd \<and> j < min frames (len (samples sd) - position sd)
      then f32_add env acc
             (f32_scale env
                (f32_scale env (rows (samples sd) ! (position sd + j) ! c) (volume sd))
                master)
      else acc)"

text \<open>The cursor of a voice after the block: a paused voice keeps its cursor.\<close>

definition advance :: "nat \<Rightarrow> 'a sound_data \<Rightarrow> 'a sound_data" where
  "advance frames sd =
     (if paused sd then sd
      else sd\<lparr>position := position sd + min frames (len (samples sd) - position sd)\<rparr>)"

definition at_end :: "'a sound_data \<Rightarrow> bool" where
  "at_end sd = (position sd \<ge> len (samples sd))"

text \<open>A buffer in the engine's format: \<open>CHANNELS\<close> columns in every frame.\<close>

definition stereo :: "'a pcm \<Rightarrow> bool" where
  "stereo a = (ncols a = CHANNELS \<and> list_all (\<lambda>r. length r = CHANNELS) (rows a))"

text \<open>A mix buffer of \<open>frames\<close> frames with \<open>CHANNELS\<close> samples each.\<close>

definition block_ok :: "nat \<Rightarrow> 'a list list \<Rightarrow> bool" where
  "block_ok frames mixed =
     (length mixed = frames \<and> list_all (\<lambda>r. length r = CHANNELS) mixed)"

section \<open>Hotkey detector: strings\<close>

text \<open>
  Python strings are modelled as byte strings; \<open>lower\<close> and \<open>strip\<close> are the ASCII
  parts of \<^verbatim>\<open>str.lower\<close> and \<^verbatim>\<open>str.strip\<close>.
\<close>

definition lower_char :: "char \<Rightarrow> char" where
  "lower_char c =
     (let n = (of_char c :: nat) in if 65 \<le> n \<and> n \<le> 90 then char_of (n + 32) else c)"

definition lower :: "string \<Rightarrow> string" where
  "lower s = map lower_char s"

definition is_space :: "char \<Rightarrow> bool" where
  "is_space c = (let n = (of_char c :: nat) in (9 \<le> n \<and> n \<le> 13) \<or> (28 \<le> n \<and> n \<le> 32))"

definition strip :: "string \<Rightarrow> string" where
  "strip s = rev (dropWhile is_space (rev (dropWhile is_space s)))"

text \<open>\<^verbatim>\<open>s.split(d)\<close> for a one-character separator: never the empty list.\<close>

fun split_on :: "char \<Rightarrow> string \<Rightarrow> string list" where
  "split_on d [] = [[]]"
| "split_on d (c # cs) =
     (if c = d then [] # split_on d cs
      else (case split_on d cs of
              w # ws \<Rightarrow> (c # w) # ws
            | [] \<Rightarrow> [[c]]))"

text \<open>\<^verbatim>\<open>sep.join(parts)\<close>.\<close>

fun join :: "string \<Rightarrow> string list \<Rightarrow> string" where
  "join sep [] = []"
| "join sep [p] = p"
| "join sep (p # q # ps) = p @ sep @ join sep (q # ps)"

text \<open>\<^verbatim>\<open>s.replace('key.', '')\<close>: every occurrence, left to right.\<close>

function remove_key_dot :: "string \<Rightarrow> string" where
  "remove_key_dot [] = []"
| "remove_key_dot (c # cs) =
     (if prefix ''key.'' (c # cs) then remove_key_dot (drop 3 cs)
      else c # remove_key_dot cs)"
  by pat_completeness auto
termination
  by (relation "measure length") auto

text \<open>Decimal notation of an integer, as an f-string writes it.\<close>

function str_nat :: "nat \<Rightarrow> string" where
  "str_nat n =
     (if n < 10 then [char_of (48 + n)]
      else str_nat (n div 10) @ [char_of (48 + n mod 10)])"
  by pat_completeness auto
termination
  by (relation "measure id") auto

declare str_nat.simps [simp del]

definition str_int :: "int \<Rightarrow> string" where
  "str_int i = (if i < 0 then CHR ''-'' # str_nat (nat (- i)) else str_nat (nat i))"

section \<open>Hotkey detector: normalisation\<close>

definition modifiers :: "string list" where
  "modifiers = [''ctrl'', ''alt'', ''shift'', ''cmd'', ''win'']"

text \<open>
  The loop \<^verbatim>\<open>for mod in [...]: if p.startswith(mod)\<close>: the first modifier name
  that is a prefix of the string.
\<close>

fun first_modifier :: "string list \<Rightarrow> string \<Rightarrow> string option" where
  "first_modifier [] p = None"
| "first_modifier (m # ms) p = (if prefix m p then Some m else first_modifier ms p)"

definition shift_map :: "(string \<times> string) list" where
  "shift_map =
     [(''!'', ''1''), (''@'', ''2''), (''#'', ''3''), (''$'', ''4''), (''%'', ''5''),
      (''^'', ''6''), (''&'', ''7''), (''*'', ''8''), (''('', ''9''), ('')'', ''0''),
      (''_'', ''-''), (''+'', ''=''), (''{'', ''[''), (''}'', '']''), (''|'', [CHR 0x5C]),
      ('':'', '';''), ([CHR 0x22], [CHR 0x27]), (''<'', '',''), (''>'', ''.''), (''?'', ''/'')]"

text \<open>
  A key event of the capture library: a member of \<^verbatim>\<open>keyboard.Key\<close> with its
  name, or a \<^verbatim>\<open>KeyCode\<close> with its optional character, its optional virtual
  key code and the text \<^verbatim>\<open>str(key)\<close> gives for it.
\<close>

datatype raw_key = Key string | KeyCode "string option" "int option" string

text \<open>
  \<^verbatim>\<open>_normalize_key\<close>. No branch of the model raises, so the \<^verbatim>\<open>except\<close>
  clause has no counterpart.
\<close>

fun normalize_key :: "raw_key \<Rightarrow> string" where
  "normalize_key (Key name) =
     (case first_modifier modifiers (lower name) of
        Some m \<Rightarrow> m
      | None \<Rightarrow> lower name)"
| "normalize_key (KeyCode ch vk repr) =
     (if ch \<noteq> None \<and> ch \<noteq> Some []
      then (let char = lower (the ch)
            in case map_of shift_map char of Some b \<Rightarrow> b | None \<Rightarrow> char)
      else (case vk of
              Some v \<Rightarrow>
                (if 48 \<le> v \<and> v \<le> 57 then [char_of v]
                 else if 65 \<le> v \<and> v \<le> 90 then [char_of (v + 32)]
                 else ''<'' @ str_int v @ ''>'')
            | None \<Rightarrow> hd (split_on CHR ''_'' (remove_key_dot (lower repr)))))"

text \<open>The body of the loop of \<^verbatim>\<open>_normalize_hotkey_string\<close> for one part.\<close>

definition normalize_part :: "string \<Rightarrow> string" where
  "normalize_part p =
     (case first_modifier modifiers (strip p) of
        Some m \<Rightarrow> m
      | None \<Rightarrow> strip p)"

definition normalize_hotkey_string :: "string \<Rightarrow> string" where
  "normalize_hotkey_string hotkey =
     join ''+'' (sort (map normalize_part (split_on CHR ''+'' (lower hotkey))))"

section \<open>Hotkey detector: state and events\<close>

text \<open>
  The fields of \<^verbatim>\<open>HotkeyManager\<close>. \<^verbatim>\<open>hotkeys\<close> is a Python set that
  \<^verbatim>\<open>_on_press\<close> iterates: it is a list without repetitions here, and its order
  stands for the iteration order of the set. The two other sets are only tested and
  filtered.
\<close>

record hotkey_manager =
  hotkeys :: "string list"
  current_keys :: "string set"
  triggered_hotkeys :: "string set"
  recording :: bool
  recorded_keys :: "string list"

definition manager_init :: hotkey_manager where
  "manager_init = \<lparr>hotkeys = [], current_keys = {}, triggered_hotkeys = {},
     recording = False, recorded_keys = []\<rparr>"

text \<open>The two Qt signals, as emitted values.\<close>

datatype signal = hotkey_triggered string | recording_finished string

text \<open>The tokens of a registered chord: \<^verbatim>\<open>set(hotkey.split('+'))\<close>.\<close>

definition hotkey_parts :: "string \<Rightarrow> string set" where
  "hotkey_parts hotkey = set (split_on CHR ''+'' hotkey)"

text \<open>The matching loop of \<^verbatim>\<open>_on_press\<close>.\<close>

fun match_loop :: "string list \<Rightarrow> string set \<Rightarrow> string set \<Rightarrow> string set \<times> signal list" where
  "match_loop [] cur trig = (trig, [])"
| "match_loop (h # hs) cur trig =
     (if h \<in> trig then match_loop hs cur trig
      else if hotkey_parts h \<subseteq> cur
      then (case match_loop hs cur (insert h trig) of
              (t, ev) \<Rightarrow> (t, hotkey_triggered h # ev))
      else match_loop hs cur trig)"

definition on_press :: "hotkey_manager \<Rightarrow> raw_key \<Rightarrow> hotkey_manager \<times> signal list" where
  "on_press s key =
     (let key_str = normalize_key key;
          s1 = s\<lparr>current_keys := insert key_str (current_keys s)\<rparr>
      in if recording s1
         then ((if key_str \<in> set (recorded_keys s1) then s1
                else s1\<lparr>recorded_keys := recorded_keys s1 @ [key_str]\<rparr>), [])
         else (case match_loop (hotkeys s1) (current_keys s1) (triggered_hotkeys s1) of
                 (t, ev) \<Rightarrow> (s1\<lparr>triggered_hotkeys := t\<rparr>, ev)))"

definition on_release :: "hotkey_manager \<Rightarrow> raw_key \<Rightarrow> hotkey_manager \<times> signal list" where
  "on_release s key =
     (let key_str = normalize_key key;
          s1 = s\<lparr>current_keys := current_keys s - {key_str}\<rparr>;
          s2 = s1\<lparr>triggered_hotkeys :=
                  Set.filter (\<lambda>h. key_str \<notin> set (split_on CHR ''+'' h))
                    (triggered_hotkeys s1)\<rparr>
      in if recording s2 \<and> current_keys s2 = {}
         then (s2\<lparr>recording := False, recorded_keys := []\<rparr>,
               [recording_finished (join ''+'' (recorded_keys s2))])
         else (s2, []))"

definition register :: "hotkey_manager \<Rightarrow> string \<Rightarrow> hotkey_manager" where
  "register s hotkey =
     (if hotkey = [] then s
      else (let h = normalize_hotkey_string hotkey
            in if h \<in> set (hotkeys s) then s else s\<lparr>hotkeys := hotkeys s @ [h]\<rparr>))"

definition unregister :: "hotkey_manager \<Rightarrow> string \<Rightarrow> hotkey_manager" where
  "unregister s hotkey =
     (if hotkey = [] then s
      else s\<lparr>hotkeys := removeAll (normalize_hotkey_string hotkey) (hotkeys s)\<rparr>)"

definition clear_all :: "hotkey_manager \<Rightarrow> hotkey_manager" where
  "clear_all s = s\<lparr>hotkeys := []\<rparr>"

definition start_recording :: "hotkey_manager \<Rightarrow> hotkey_manager" where
  "start_recording s = s\<lparr>recording := True, recorded_keys := [], current_keys := {}\<rparr>"

section \<open>Hotkey detector: runs\<close>

datatype event =
    Press raw_key
  | Release raw_key
  | Register string
  | Unregister string
  | ClearAll
  | StartRecording

fun step_manager :: "hotkey_manager \<Rightarrow> event \<Rightarrow> hotkey_manager \<times> signal list" where
  "step_manager s (Press k) = on_press s k"
| "step_manager s (Release k) = on_release s k"
| "step_manager s (Register h) = (register s h, [])"
| "step_manager s (Unregister h) = (unregister s h, [])"
| "step_manager s ClearAll = (clear_all s, [])"
| "step_manager s StartRecording = (start_recording s, [])"

fun run_manager :: "hotkey_manager \<Rightarrow> event list \<Rightarrow> hotkey_manager \<times> signal list" where
  "run_manager s [] = (s, [])"
| "run_manager s (e # es) =
     (case step_manager s e of
        (s', out) \<Rightarrow> (case run_manager s' es of (s'', out') \<Rightarrow> (s'', out @ out')))"

text \<open>
  The latch invariant of the specification: every latched chord has all of its tokens
  among the pressed keys.
\<close>

definition latch_inv :: "hotkey_manager \<Rightarrow> bool" where
  "latch_inv s = (\<forall>h \<in> triggered_hotkeys s. hotkey_parts h \<subseteq> current_keys s)"

text \<open>
  A run in which \<open>start_recording\<close> is called only while no chord is latched.
\<close>

fun recording_starts_unlatched :: "hotkey_manager \<Rightarrow> event list \<Rightarrow> bool" where
  "recording_starts_unlatched s [] = True"
| "recording_starts_unlatched s (e # es) =
     ((e = StartRecording \<longrightarrow> triggered_hotkeys s = {})
      \<and> recording_starts_unlatched (fst (step_manager s e)) es)"

text \<open>
  The state in which edge triggering is exact: no recording session, and a registered
  chord is latched exactly when all of its tokens are pressed. The detector is in such a
  state whenever no key is down and nothing is latched.
\<close>

definition edge_inv :: "hotkey_manager \<Rightarrow> bool" where
  "edge_inv s =
     (\<not> recording s
      \<and> (\<forall>h \<in> set (hotkeys s).
            (h \<in> triggered_hotkeys s) = (hotkey_parts h \<subseteq> current_keys s)))"

fun is_key_event :: "event \<Rightarrow> bool" where
  "is_key_event (Press k) = True"
| "is_key_event (Release k) = True"
| "is_key_event e = False"


section \<open>Concrete states and inputs\<close>

definition demo_voice :: "real sound_data" where
  "demo_voice = \<lparr>samples = Pcm 2 [[1, 2], [3, 4]], position = 0, volume = 1,
     file_path = ''a.wav'', paused = False\<rparr>"

definition demo_player :: "real audio_player" where
  "demo_player = \<lparr>active_sounds = [(1, demo_voice)], sound_id_counter = 1,
     master_volume = 1, is_playing = True, audio_cache = Map.empty\<rparr>"

definition key_a :: raw_key where
  "key_a = KeyCode (Some ''a'') None []"

definition key_ctrl :: raw_key where
  "key_ctrl = Key ''ctrl_l''"

definition key_shift :: raw_key where
  "key_shift = Key ''shift''"

definition key_bang :: raw_key where
  "key_bang = KeyCode (Some ''!'') None []"

text \<open>The chord \<open>a\<close> is registered and its key is held.\<close>

definition held_a :: hotkey_manager where
  "held_a = fst (run_manager manager_init [Register ''a'', Press key_a])"

text \<open>The chord of Ctrl and A is registered; then Ctrl is pressed; then A as well.\<close>

definition chord_ready :: hotkey_manager where
  "chord_ready = register manager_init ''Ctrl+A''"

definition ctrl_held :: hotkey_manager where
  "ctrl_held = fst (run_manager chord_ready [Press key_ctrl])"

definition chord_held :: hotkey_manager where
  "chord_held = fst (run_manager chord_ready [Press key_ctrl, Press key_a])"

text \<open>
  Ctrl and A are held when their chord is registered. Then, from \<open>chord_ready\<close>: the
  chord is held and latched when a recording session starts, and the session records
  another key and ends.
\<close>

definition key_b :: raw_key where
  "key_b = KeyCode (Some ''b'') None []"

definition registered_while_held :: hotkey_manager where
  "registered_while_held =
     fst (run_manager manager_init [Press key_ctrl, Press key_a, Register ''Ctrl+A''])"

definition latch_left_by_recording :: hotkey_manager where
  "latch_left_by_recording =
     fst (run_manager chord_ready
            [Press key_ctrl, Press key_a, StartRecording, Press key_bang, Release key_bang])"


text \<open>
  A backend with a mono file, a three-channel file and a file without frames, all at
  the engine's rate, and with exact arithmetic on real samples.
\<close>

definition studio :: "real backend" where
  "studio =
     \<lparr>sf_read = (\<lambda>p. if p = ''mono.wav'' then Some (Arr1 [1/2, 1/4], 48000)
                      else if p = ''surround.wav'' then Some (Arr2 3 [[1, 2, 3]], 48000)
                      else if p = ''empty.wav'' then Some (Arr1 [], 48000)
                      else None),
      resample = (\<lambda>a r. Some a),
      f32_zero = 0,
      f32_scale = (\<lambda>x g. x * g),
      f32_add = (\<lambda>x y. x + y)\<rparr>"

text \<open>
  A backend without files whose arithmetic rounds and overflows: samples are integers,
  a product is rounded down, and a sum outside of \<open>-8 \<dots> 8\<close> becomes the bound.
\<close>

definition coarse :: "int backend" where
  "coarse =
     \<lparr>sf_read = (\<lambda>p. None),
      resample = (\<lambda>a r. Some a),
      f32_zero = 0,
      f32_scale = (\<lambda>x g. \<lfloor>of_int x * g\<rfloor>),
      f32_add = (\<lambda>x y. max (- 8) (min 8 (x + y)))\<rparr>"

definition two_plays :: "cmd list" where
  "two_plays = [Play ''mono.wav'' 1 True, Play ''mono.wav'' 1 True]"

definition one_block :: "cmd list" where
  "one_block = [Callback 1]"

text \<open>The three-channel file has been played on a fresh engine.\<close>

definition surround_playing :: "real audio_player" where
  "surround_playing = snd (play_sound studio player_init ''surround.wav'' 1 True)"

text \<open>
  The file without frames has been played and its voice paused before the first
  callback.
\<close>

definition silent_paused :: "real audio_player" where
  "silent_paused =
     fst (run_player studio player_init [Play ''empty.wav'' 1 True, TogglePause 1])"

text \<open>Two voices of constant amplitude 5, with gains 1/2 and 3/2, at master gain 1.\<close>

definition duo :: "int audio_player" where
  "duo =
     \<lparr>active_sounds =
        [(1, \<lparr>samples = Pcm 2 [[5, 5], [5, 5], [5, 5]], position = 1, volume = 1/2,
              file_path = ''one.wav'', paused = False\<rparr>),
         (2, \<lparr>samples = Pcm 2 [[5, 5], [5, 5], [5, 5]], position = 0, volume = 3/2,
              file_path = ''two.wav'', paused = False\<rparr>)],
      sound_id_counter = 2, master_volume = 1, is_playing = True,
      audio_cache = Map.empty\<rparr>"

section \<open>Transport on stale identifiers\<close>

text \<open>
  C7. For a voice identifier that is not in the active-voice table, the transport
  operations have no effect and have no failing branch: \<open>toggle_pause_sound\<close> returns
  \<open>False\<close> with the state unchanged, \<open>set_sound_volume\<close> and \<open>stop_sound\<close> leave
  the table unchanged. For an identifier that is in the table, \<open>toggle_pause_sound\<close>
  flips the paused flag of that voice, leaves every other entry as it is, and returns
  the new flag.
\<close>

theorem transport_stale_id_noop:
  "(map_of (active_sounds s) sid = None \<longrightarrow>
      toggle_pause_sound s sid = (s, False)
      \<and> active_sounds (set_sound_volume s sid vol) = active_sounds s
      \<and> active_sounds (stop_sound s sid) = active_sounds s)
   \<and> (\<forall>sd. map_of (active_sounds s) sid = Some sd \<longrightarrow>
        snd (toggle_pause_sound s sid) = (\<not> paused sd)
        \<and> map_of (active_sounds (fst (toggle_pause_sound s sid))) =
            (map_of (active_sounds s))(sid \<mapsto> sd\<lparr>paused := \<not> paused sd\<rparr>)
        \<and> map fst (active_sounds (fst (toggle_pause_sound s sid))) =
            map fst (active_sounds s))"
proof (intro conjI impI allI)
  assume absent: "map_of (active_sounds s) sid = None"
  show "toggle_pause_sound s sid = (s, False)"
    using absent by (simp add: toggle_pause_sound_def)
  show "active_sounds (set_sound_volume s sid vol) = active_sounds s"
    using absent by (simp add: set_sound_volume_def)
  from absent have "sid \<notin> fst ` set (active_sounds s)"
    by (simp add: map_of_eq_None_iff)
  then show "active_sounds (stop_sound s sid) = active_sounds s"
    by (simp add: stop_sound_def)
next
  fix sd
  assume present: "map_of (active_sounds s) sid = Some sd"
  show "snd (toggle_pause_sound s sid) = (\<not> paused sd)"
    using present by (simp add: toggle_pause_sound_def)
  show "map_of (active_sounds (fst (toggle_pause_sound s sid))) =
          (map_of (active_sounds s))(sid \<mapsto> sd\<lparr>paused := \<not> paused sd\<rparr>)"
    using present by (simp add: toggle_pause_sound_def update_conv')
  from present have "sid \<in> fst ` set (active_sounds s)"
    by (metis domI dom_map_of_conv_image_fst)
  then show "map fst (active_sounds (fst (toggle_pause_sound s sid))) =
          map fst (active_sounds s)"
    using present by (simp add: toggle_pause_sound_def update_keys)
qed

theorem transport_stale_id_noop_witness:
  "map_of (active_sounds demo_player) 2 = None
   \<and> toggle_pause_sound demo_player 2 = (demo_player, False)
   \<and> active_sounds (set_sound_volume demo_player 2 (1/2)) = active_sounds demo_player
   \<and> active_sounds (stop_sound demo_player 2) = active_sounds demo_player
   \<and> map_of (active_sounds demo_player) 1 = Some demo_voice
   \<and> snd (toggle_pause_sound demo_player 1) = True"
  using transport_stale_id_noop [of demo_player 2 "1/2"]
    transport_stale_id_noop [of demo_player 1 "1/2"]
  by (simp add: demo_player_def demo_voice_def)

section \<open>Hotkey detector: the matching loop and the fields after an event\<close>

lemma match_loop_latched:
  "fst (match_loop hs cur trig) = trig \<union> {h \<in> set hs. hotkey_parts h \<subseteq> cur}"
  by (induction hs arbitrary: trig) (auto simp: split_beta)

lemma match_loop_count:
  "count_list (snd (match_loop hs cur trig)) (hotkey_triggered h) =
     (if h \<in> set hs \<and> h \<notin> trig \<and> hotkey_parts h \<subseteq> cur then 1 else 0)"
proof (induction hs arbitrary: trig)
  case Nil
  show ?case by simp
next
  case (Cons g hs)
  show ?case
  proof (cases "g \<in> trig")
    case True
    then show ?thesis using Cons.IH [of trig] by auto
  next
    case notin: False
    show ?thesis
    proof (cases "hotkey_parts g \<subseteq> cur")
      case True
      then show ?thesis using notin Cons.IH [of "insert g trig"]
        by (auto simp: split_beta)
    next
      case False
      then show ?thesis using notin Cons.IH [of trig] by auto
    qed
  qed
qed

lemma match_loop_only_triggers:
  "recording_finished x \<notin> set (snd (match_loop hs cur trig))"
  by (induction hs arbitrary: trig) (auto simp: split_beta)

lemma on_press_fields:
  "current_keys (fst (on_press s k)) = insert (normalize_key k) (current_keys s)"
  "hotkeys (fst (on_press s k)) = hotkeys s"
  "recording (fst (on_press s k)) = recording s"
  by (auto simp: on_press_def Let_def split_beta)

lemma on_press_latched:
  "\<not> recording s \<Longrightarrow> triggered_hotkeys (fst (on_press s k)) =
     triggered_hotkeys s \<union>
       {h \<in> set (hotkeys s). hotkey_parts h \<subseteq> insert (normalize_key k) (current_keys s)}"
  using match_loop_latched [of "hotkeys s" "insert (normalize_key k) (current_keys s)" "triggered_hotkeys s"]
  by (auto simp: on_press_def Let_def split_beta)

lemma on_press_latched_recording:
  "recording s \<Longrightarrow> triggered_hotkeys (fst (on_press s k)) = triggered_hotkeys s"
  by (auto simp: on_press_def Let_def)

lemma on_release_fields:
  "current_keys (fst (on_release s k)) = current_keys s - {normalize_key k}"
  "hotkeys (fst (on_release s k)) = hotkeys s"
  "triggered_hotkeys (fst (on_release s k)) =
     {h \<in> triggered_hotkeys s. normalize_key k \<notin> hotkey_parts h}"
  by (auto simp: on_release_def Let_def hotkey_parts_def)

lemma on_release_idle:
  "\<not> recording s \<Longrightarrow> snd (on_release s k) = [] \<and> \<not> recording (fst (on_release s k))"
  by (simp add: on_release_def Let_def)

section \<open>The latch invariant\<close>

lemma latch_inv_press: "latch_inv s \<Longrightarrow> latch_inv (fst (on_press s k))"
proof (cases "recording s")
  case True
  assume "latch_inv s"
  then show ?thesis using True
    by (auto simp: latch_inv_def on_press_fields on_press_latched_recording)
next
  case False
  assume "latch_inv s"
  then show ?thesis using False
    by (auto simp: latch_inv_def on_press_fields on_press_latched)
qed

lemma latch_inv_release: "latch_inv s \<Longrightarrow> latch_inv (fst (on_release s k))"
  by (auto simp: latch_inv_def on_release_fields)

lemma latch_inv_step:
  "latch_inv s \<Longrightarrow> (e = StartRecording \<longrightarrow> triggered_hotkeys s = {}) \<Longrightarrow>
     latch_inv (fst (step_manager s e))"
proof (cases e)
  case (Press k)
  assume "latch_inv s" then show ?thesis using Press by (simp add: latch_inv_press)
next
  case (Release k)
  assume "latch_inv s" then show ?thesis using Release by (simp add: latch_inv_release)
next
  case (Register h)
  assume "latch_inv s" then show ?thesis using Register
    by (simp add: latch_inv_def register_def Let_def)
next
  case (Unregister h)
  assume "latch_inv s" then show ?thesis using Unregister
    by (simp add: latch_inv_def unregister_def)
next
  case ClearAll
  assume "latch_inv s" then show ?thesis using ClearAll
    by (simp add: latch_inv_def clear_all_def)
next
  case StartRecording
  assume "e = StartRecording \<longrightarrow> triggered_hotkeys s = {}"
  then show ?thesis using StartRecording
    by (simp add: latch_inv_def start_recording_def)
qed

lemma latch_inv_run:
  "latch_inv s \<Longrightarrow> recording_starts_unlatched s es \<Longrightarrow> latch_inv (fst (run_manager s es))"
proof (induction es arbitrary: s)
  case Nil
  then show ?case by simp
next
  case (Cons e es)
  from Cons.prems have "latch_inv (fst (step_manager s e))"
    by (intro latch_inv_step) auto
  moreover from Cons.prems have "recording_starts_unlatched (fst (step_manager s e)) es"
    by simp
  ultimately have "latch_inv (fst (run_manager (fst (step_manager s e)) es))"
    by (rule Cons.IH)
  then show ?case by (simp add: split_beta)
qed

text \<open>
  C5 (amended). In every detector state reached from the initial state by a sequence of
  key presses, key releases, \<open>register\<close>, \<open>unregister\<close>, \<open>clear_all\<close> and
  \<open>start_recording\<close> calls in which \<open>start_recording\<close> is called only while no chord
  is latched, every latched chord has all of its tokens in the pressed-key set.
  \<open>start_recording\<close> empties the pressed-key set and leaves the latched set as it is.
\<close>

theorem latched_chords_are_held:
  "recording_starts_unlatched manager_init es \<Longrightarrow>
     latch_inv (fst (run_manager manager_init es))"
  by (rule latch_inv_run) (simp_all add: latch_inv_def manager_init_def)

lemma held_a_eval:
  "held_a = \<lparr>hotkeys = [''a''], current_keys = {''a''}, triggered_hotkeys = {''a''},
     recording = False, recorded_keys = []\<rparr>"
  by code_simp

lemma parts_a: "hotkey_parts ''a'' = {''a''}"
  by (simp add: hotkey_parts_def)

text \<open>
  The invariant as the claim states it fails: with the chord \<open>a\<close> registered and latched
  by a press of its key, \<open>start_recording\<close> leaves it latched over an empty pressed set.
\<close>

theorem latched_chords_are_held_counterexample:
  "\<not> latch_inv (fst (run_manager manager_init [Register ''a'', Press key_a, StartRecording]))"
proof -
  have "fst (run_manager manager_init [Register ''a'', Press key_a, StartRecording])
          = start_recording held_a"
    by (simp add: held_a_def split_beta)
  then show ?thesis
    by (simp add: held_a_eval start_recording_def latch_inv_def parts_a)
qed

theorem latched_chords_are_held_witness:
  "recording_starts_unlatched manager_init [Register ''a'', Press key_a, Release key_a, StartRecording]
   \<and> latch_inv (fst (run_manager manager_init [Register ''a'', Press key_a, Release key_a, StartRecording]))"
proof -
  have g: "recording_starts_unlatched manager_init [Register ''a'', Press key_a, Release key_a, StartRecording]"
    by code_simp
  show ?thesis using g latched_chords_are_held [OF g] by simp
qed

section \<open>Clearing the registered chords\<close>

text \<open>
  C3 (amended). For every detector state, \<open>clear_all\<close> leaves the registered chord
  set empty; the latched set, the pressed-key set and the recording session are
  unchanged.
\<close>

theorem clear_all_effect:
  "hotkeys (clear_all s) = []
   \<and> triggered_hotkeys (clear_all s) = triggered_hotkeys s
   \<and> current_keys (clear_all s) = current_keys s
   \<and> recording (clear_all s) = recording s
   \<and> recorded_keys (clear_all s) = recorded_keys s"
  by (simp add: clear_all_def)

text \<open>
  The latched set is not emptied: with the chord \<open>a\<close> registered and latched,
  \<open>clear_all\<close> leaves it in the latched set.
\<close>

theorem clear_all_effect_counterexample:
  "\<not> (hotkeys (clear_all held_a) = [] \<and> triggered_hotkeys (clear_all held_a) = {}
       \<and> current_keys (clear_all held_a) = current_keys held_a)"
  by (simp add: held_a_eval clear_all_def)

section \<open>Edge triggering\<close>

lemma on_press_count:
  "\<not> recording s \<Longrightarrow>
     count_list (snd (on_press s k)) (hotkey_triggered h) =
       (if h \<in> set (hotkeys s) \<and> h \<notin> triggered_hotkeys s
           \<and> hotkey_parts h \<subseteq> insert (normalize_key k) (current_keys s)
        then 1 else 0)"
  using match_loop_count [of "hotkeys s" "insert (normalize_key k) (current_keys s)"
      "triggered_hotkeys s" h]
  by (simp add: on_press_def Let_def split_beta)

lemma edge_inv_press: "edge_inv s \<Longrightarrow> edge_inv (fst (on_press s k))"
  unfolding edge_inv_def
  by (auto simp: on_press_fields on_press_latched)

lemma edge_inv_release: "edge_inv s \<Longrightarrow> edge_inv (fst (on_release s k))"
  unfolding edge_inv_def
  by (auto simp: on_release_fields on_release_idle)

lemma edge_inv_run:
  "edge_inv s \<Longrightarrow> \<forall>e \<in> set es. is_key_event e \<Longrightarrow> edge_inv (fst (run_manager s es))"
proof (induction es arbitrary: s)
  case Nil
  then show ?case by simp
next
  case (Cons e es)
  from Cons.prems have "is_key_event e" by simp
  with Cons.prems(1) have "edge_inv (fst (step_manager s e))"
    by (cases e) (simp_all add: edge_inv_press edge_inv_release)
  moreover from Cons.prems have "\<forall>e \<in> set es. is_key_event e" by simp
  ultimately have "edge_inv (fst (run_manager (fst (step_manager s e)) es))"
    by (rule Cons.IH)
  then show ?case by (simp add: split_beta)
qed

lemma split_on_nonempty: "split_on d s \<noteq> []"
  by (induction s) (auto split: list.splits)

lemma hotkey_parts_nonempty: "hotkey_parts h \<noteq> {}"
  by (cases "split_on CHR ''+'' h") (simp_all add: hotkey_parts_def split_on_nonempty)

lemma edge_inv_idle:
  "current_keys s = {} \<Longrightarrow> triggered_hotkeys s = {} \<Longrightarrow> \<not> recording s \<Longrightarrow> edge_inv s"
  by (simp add: edge_inv_def hotkey_parts_nonempty)

lemma register_keeps_keys:
  "current_keys (foldl register s hs) = current_keys s"
  "triggered_hotkeys (foldl register s hs) = triggered_hotkeys s"
  "recording (foldl register s hs) = recording s"
  by (induction hs arbitrary: s) (simp_all add: register_def Let_def)

lemma edge_inv_after_registration: "edge_inv (foldl register manager_init hs)"
  by (rule edge_inv_idle) (simp_all add: register_keeps_keys manager_init_def)

text \<open>
  C9 (amended). Take a registered chord \<open>h\<close> and any sequence of press and release
  events, with no recording session, that starts in a state where a registered chord is
  latched exactly when all of its tokens are pressed (as in every state with no key down
  and nothing latched, and so after start-up and any registrations), and let \<open>s\<close> be
  the state it reaches. A press in \<open>s\<close> emits the trigger of \<open>h\<close> exactly once if
  it is the press that makes the tokens of \<open>h\<close> a subset of the pressed set, and not
  at all otherwise: not while all keys of \<open>h\<close> are already held. A release emits
  nothing. If all keys of \<open>h\<close> are held, releasing one of them and pressing it again
  emits the trigger exactly once.
\<close>

theorem chord_fires_on_rising_edge:
  assumes start: "edge_inv s0"
    and keys: "\<forall>e \<in> set es. is_key_event e"
    and reach: "s = fst (run_manager s0 es)"
    and reg: "h \<in> set (hotkeys s)"
  shows "count_list (snd (on_press s k)) (hotkey_triggered h) =
           (if \<not> hotkey_parts h \<subseteq> current_keys s
               \<and> hotkey_parts h \<subseteq> insert (normalize_key k) (current_keys s)
            then 1 else 0)
         \<and> snd (on_release s k) = []
         \<and> (hotkey_parts h \<subseteq> current_keys s \<and> normalize_key k \<in> hotkey_parts h \<longrightarrow>
              count_list (snd (on_press (fst (on_release s k)) k)) (hotkey_triggered h) = 1)"
proof -
  have inv: "edge_inv s"
    using start keys reach by (simp add: edge_inv_run)
  then have idle: "\<not> recording s"
    and latch: "(h \<in> triggered_hotkeys s) = (hotkey_parts h \<subseteq> current_keys s)"
    using reg by (auto simp: edge_inv_def)
  have first: "count_list (snd (on_press s k)) (hotkey_triggered h) =
           (if \<not> hotkey_parts h \<subseteq> current_keys s
               \<and> hotkey_parts h \<subseteq> insert (normalize_key k) (current_keys s)
            then 1 else 0)"
    using on_press_count [OF idle, of k h] reg latch by auto
  have quiet: "snd (on_release s k) = []"
    using idle by (simp add: on_release_idle)
  have again: "count_list (snd (on_press (fst (on_release s k)) k)) (hotkey_triggered h) = 1"
    if held: "hotkey_parts h \<subseteq> current_keys s" and part: "normalize_key k \<in> hotkey_parts h"
  proof -
    have "\<not> recording (fst (on_release s k))"
      using idle by (simp add: on_release_idle)
    from on_press_count [OF this, of k h] show ?thesis
      using reg held part by (auto simp: on_release_fields)
  qed
  from first quiet again show ?thesis by blast
qed

lemma chord_ready_eval:
  "chord_ready = \<lparr>hotkeys = [''a+ctrl''], current_keys = {}, triggered_hotkeys = {},
     recording = False, recorded_keys = []\<rparr>"
  by code_simp

lemma parts_a_ctrl: "hotkey_parts ''a+ctrl'' = {''a'', ''ctrl''}"
  by (simp add: hotkey_parts_def)

lemma key_tokens: "normalize_key key_a = ''a''" "normalize_key key_ctrl = ''ctrl''"
  "normalize_key key_bang = ''1''"
  by code_simp+

text \<open>
  Without that start the claim fails in reachable states with no recording session.
  When the chord is registered while its keys are held, the press of another key fires
  it. When a recording session has started over the latched chord and has ended, the
  chord is still latched over an empty pressed set, and pressing its keys again fires
  nothing.
\<close>

theorem chord_fires_on_rising_edge_counterexample:
  "\<not> recording registered_while_held
   \<and> ''a+ctrl'' \<in> set (hotkeys registered_while_held)
   \<and> hotkey_parts ''a+ctrl'' \<subseteq> current_keys registered_while_held
   \<and> snd (on_press registered_while_held key_b) = [hotkey_triggered ''a+ctrl'']
   \<and> \<not> recording latch_left_by_recording
   \<and> ''a+ctrl'' \<in> set (hotkeys latch_left_by_recording)
   \<and> current_keys latch_left_by_recording = {}
   \<and> hotkey_parts ''a+ctrl'' \<subseteq>
       current_keys (fst (run_manager latch_left_by_recording [Press key_ctrl, Press key_a]))
   \<and> snd (run_manager latch_left_by_recording [Press key_ctrl, Press key_a]) = []"
  by code_simp

lemma ctrl_held_eval:
  "ctrl_held =
     \<lparr>hotkeys = [''a+ctrl''], current_keys = {''ctrl''}, triggered_hotkeys = {},
       recording = False, recorded_keys = []\<rparr>"
  by code_simp

lemma chord_held_eval:
  "chord_held =
     \<lparr>hotkeys = [''a+ctrl''], current_keys = {''a'', ''ctrl''},
       triggered_hotkeys = {''a+ctrl''}, recording = False, recorded_keys = []\<rparr>"
  by code_simp

theorem chord_fires_on_rising_edge_witness:
  "edge_inv chord_ready
   \<and> list_all is_key_event [Press key_ctrl, Press key_a]
   \<and> ''a+ctrl'' \<in> set (hotkeys ctrl_held)
   \<and> ''a+ctrl'' \<in> set (hotkeys chord_held)
   \<and> count_list (snd (on_press ctrl_held key_a)) (hotkey_triggered ''a+ctrl'') = 1
   \<and> count_list (snd (on_press chord_held key_a)) (hotkey_triggered ''a+ctrl'') = 0
   \<and> count_list (snd (on_press (fst (on_release chord_held key_a)) key_a))
        (hotkey_triggered ''a+ctrl'') = 1"
proof -
  have inv: "edge_inv chord_ready"
    by (simp add: chord_ready_eval edge_inv_def parts_a_ctrl)
  have k1: "\<forall>e \<in> set [Press key_ctrl]. is_key_event e" by simp
  have k2: "\<forall>e \<in> set [Press key_ctrl, Press key_a]. is_key_event e" by simp
  have r1: "''a+ctrl'' \<in> set (hotkeys ctrl_held)"
    by (simp add: ctrl_held_eval)
  have r2: "''a+ctrl'' \<in> set (hotkeys chord_held)"
    by (simp add: chord_held_eval)
  have c1: "current_keys ctrl_held = {''ctrl''}"
    by (simp add: ctrl_held_eval)
  have c2: "current_keys chord_held = {''a'', ''ctrl''}"
    by (simp add: chord_held_eval)
  from chord_fires_on_rising_edge [OF inv k1 ctrl_held_def r1, of key_a]
  have a: "count_list (snd (on_press ctrl_held key_a)) (hotkey_triggered ''a+ctrl'') = 1"
    by (simp add: c1 key_tokens parts_a_ctrl)
  from chord_fires_on_rising_edge [OF inv k2 chord_held_def r2, of key_a]
  have b: "count_list (snd (on_press chord_held key_a)) (hotkey_triggered ''a+ctrl'') = 0
     \<and> count_list (snd (on_press (fst (on_release chord_held key_a)) key_a))
        (hotkey_triggered ''a+ctrl'') = 1"
    by (simp add: c2 key_tokens parts_a_ctrl)
  have k: "list_all is_key_event [Press key_ctrl, Press key_a]" by simp
  from inv k r1 r2 a b show ?thesis by blast
qed

section \<open>Recording\<close>








section \<open>Loading and playing\<close>

lemma load_audio_fail_state: "fst (load_audio env s path) = None \<Longrightarrow> snd (load_audio env s path) = s"
  by (auto simp: load_audio_def split: option.splits prod.splits)

lemma load_audio_decode_fails:
  "audio_cache s path = None \<Longrightarrow> sf_read env path = None \<Longrightarrow> load_audio env s path = (None, s)"
  by (simp add: load_audio_def)

lemma load_audio_resample_fails:
  "audio_cache s path = None \<Longrightarrow> sf_read env path = Some (raw, rate) \<Longrightarrow>
     resample_if_needed env (ensure_stereo raw) rate = None \<Longrightarrow>
     load_audio env s path = (None, s)"
  by (simp add: load_audio_def)

text \<open>
  C10. When \<open>load_audio\<close> fails for a path (it returns \<open>None\<close>; in particular
  when the path is not cached and decoding it raises), \<open>play_sound\<close> returns
  \<open>None\<close> and the engine state is the one before the call: the active-voice table
  (also with \<open>overlap\<close> false), the identifier counter, the playing flag and the cache.
\<close>

theorem failed_play_changes_nothing:
  "(fst (load_audio env s path) = None \<longrightarrow>
      play_sound env s path vol overlap = (None, s))
   \<and> (audio_cache s path = None \<and> sf_read env path = None \<longrightarrow>
        play_sound env s path vol overlap = (None, s))"
proof -
  have "play_sound env s path vol overlap = (None, s)"
    if "fst (load_audio env s path) = None"
  proof -
    from that have "load_audio env s path = (None, s)"
      using load_audio_fail_state [of env s path] by (metis prod.collapse)
    then show ?thesis by (simp add: play_sound_def)
  qed
  then show ?thesis by (simp add: load_audio_decode_fails)
qed

theorem failed_play_changes_nothing_witness:
  "fst (load_audio studio demo_player ''missing.wav'') = None
   \<and> audio_cache demo_player ''missing.wav'' = None
   \<and> sf_read studio ''missing.wav'' = None
   \<and> play_sound studio demo_player ''missing.wav'' 1 False = (None, demo_player)"
proof -
  have c: "audio_cache demo_player ''missing.wav'' = None"
    and d: "sf_read studio ''missing.wav'' = None"
    by (simp_all add: studio_def demo_player_def)
  then have f: "fst (load_audio studio demo_player ''missing.wav'') = None"
    by (simp add: load_audio_def)
  from c d f failed_play_changes_nothing [of studio demo_player "''missing.wav''" 1 False]
  show ?thesis by simp
qed

section \<open>Voice identifiers\<close>

lemma load_audio_table:
  "active_sounds (snd (load_audio env s path)) = active_sounds s"
  "sound_id_counter (snd (load_audio env s path)) = sound_id_counter s"
  by (auto simp: load_audio_def split: option.splits prod.splits)

lemma play_sound_result:
  "fst (play_sound env s path vol overlap) =
     (if fst (load_audio env s path) = None then None else Some (sound_id_counter s + 1))"
  "sound_id_counter (snd (play_sound env s path vol overlap)) =
     (if fst (load_audio env s path) = None then sound_id_counter s else sound_id_counter s + 1)"
  "fst ` set (active_sounds (snd (play_sound env s path vol overlap))) =
     (if fst (load_audio env s path) = None then fst ` set (active_sounds s)
      else if overlap then insert (sound_id_counter s + 1) (fst ` set (active_sounds s))
      else {sound_id_counter s + 1})"
  using load_audio_table [of env s path]
  by (auto simp: play_sound_def Let_def dom_update [unfolded dom_map_of_conv_image_fst]
      split: option.splits prod.splits)


lemma mix_loop_keys: "map fst (fst (mix_loop env m f tbl mixed)) = map fst tbl"
proof (induction tbl arbitrary: mixed)
  case Nil
  show ?case by simp
next
  case (Cons p tbl)
  obtain sid sd where p: "p = (sid, sd)" by (cases p)
  show ?case
  proof (cases "mix_one env m f sd mixed")
    case (Inl e)
    then show ?thesis by (simp add: p)
  next
    case (Inr r)
    obtain sd' mixed' fin where r: "r = (sd', mixed', fin)" by (cases r)
    from Cons.IH [of mixed'] show ?thesis
      by (simp add: p Inr r split_beta split: sum.splits)
  qed
qed

lemma delete_all_keys:
  "fst ` set (foldl (\<lambda>t i. AList.delete i t) tbl ids) \<subseteq> fst ` set tbl"
proof (induction ids arbitrary: tbl)
  case Nil
  show ?case by simp
next
  case (Cons i ids)
  have "fst ` set (AList.delete i tbl) \<subseteq> fst ` set tbl"
    by (auto simp: AList.delete_eq)
  with Cons.IH [of "AList.delete i tbl"] show ?case by auto
qed

lemma audio_callback_keys:
  "fst ` set (active_sounds (fst (audio_callback env s frames))) \<subseteq> fst ` set (active_sounds s)"
  "sound_id_counter (fst (audio_callback env s frames)) = sound_id_counter s"
proof -
  let ?r = "mix_loop env (master_volume s) frames (active_sounds s)
              (replicate frames (replicate CHANNELS (f32_zero env)))"
  have k: "fst ` set (fst ?r) = fst ` set (active_sounds s)"
    using mix_loop_keys [of env "master_volume s" frames "active_sounds s"
        "replicate frames (replicate CHANNELS (f32_zero env))"]
    by (metis list.set_map)
  show "fst ` set (active_sounds (fst (audio_callback env s frames))) \<subseteq> fst ` set (active_sounds s)"
    using k delete_all_keys [of "fst ?r"]
    by (cases ?r rule: prod.exhaust)
      (auto simp: audio_callback_def Let_def split: sum.splits prod.splits)
  show "sound_id_counter (fst (audio_callback env s frames)) = sound_id_counter s"
    by (auto simp: audio_callback_def Let_def split: sum.splits prod.splits)
qed

lemma map_of_Some_key: "map_of t i = Some x \<Longrightarrow> i \<in> fst ` set t"
  by (metis domI dom_map_of_conv_image_fst)

lemma update_present_keys:
  "map_of t i = Some x \<Longrightarrow> fst ` set (AList.update i y t) = fst ` set t"
  using dom_update [of i y t] map_of_Some_key [of t i x]
  by (auto simp: dom_map_of_conv_image_fst)

lemma toggle_pause_keys:
  "fst ` set (active_sounds (fst (toggle_pause_sound s i))) = fst ` set (active_sounds s)"
  "sound_id_counter (fst (toggle_pause_sound s i)) = sound_id_counter s"
  by (simp_all add: toggle_pause_sound_def update_present_keys split: option.splits)

lemma set_sound_volume_keys:
  "fst ` set (active_sounds (set_sound_volume s i v)) = fst ` set (active_sounds s)"
  "sound_id_counter (set_sound_volume s i v) = sound_id_counter s"
  by (simp_all add: set_sound_volume_def update_present_keys split: option.splits)

lemma stop_sound_keys:
  "fst ` set (active_sounds (stop_sound s i)) \<subseteq> fst ` set (active_sounds s)"
  "sound_id_counter (stop_sound s i) = sound_id_counter s"
  by (auto simp: stop_sound_def Let_def AList.delete_eq)

lemma step_player_counter:
  "sound_id_counter s \<le> sound_id_counter (fst (step_player env s c))"
  by (cases c)
    (simp_all add: split_beta play_sound_result toggle_pause_keys set_sound_volume_keys
      stop_sound_keys audio_callback_keys stop_all_def set_master_volume_def clear_cache_def)

lemma step_player_returned:
  "snd (step_player env s c) = Some i \<Longrightarrow>
     i = sound_id_counter s + 1 \<and> sound_id_counter (fst (step_player env s c)) = i"
  by (cases c) (auto simp: split_beta play_sound_result split: if_splits)

lemma step_player_stale:
  "stale s j \<Longrightarrow> stale (fst (step_player env s c)) j"
proof (cases c)
  case (Play path vol overlap)
  assume "stale s j"
  then show ?thesis using Play
    by (auto simp: stale_def split_beta play_sound_result split: if_splits)
next
  case (TogglePause i)
  assume "stale s j" then show ?thesis using TogglePause
    by (simp add: stale_def toggle_pause_keys)
next
  case (Stop i)
  assume "stale s j" then show ?thesis using Stop stop_sound_keys(1) [of s i]
    by (auto simp: stale_def stop_sound_keys(2))
next
  case (SetVolume i v)
  assume "stale s j" then show ?thesis using SetVolume
    by (simp add: stale_def set_sound_volume_keys)
next
  case StopAll
  assume "stale s j" then show ?thesis using StopAll by (simp add: stale_def stop_all_def)
next
  case (SetMaster v)
  assume "stale s j" then show ?thesis using SetMaster
    by (simp add: stale_def set_master_volume_def)
next
  case ClearCache
  assume "stale s j" then show ?thesis using ClearCache by (simp add: stale_def clear_cache_def)
next
  case (Callback frames)
  assume "stale s j" then show ?thesis using Callback audio_callback_keys(1) [of env s frames]
    by (auto simp: stale_def audio_callback_keys(2))
qed

lemma run_player_stale:
  "stale s j \<Longrightarrow> stale (fst (run_player env s cs)) j"
proof (induction cs arbitrary: s)
  case Nil
  then show ?case by simp
next
  case (Cons c cs)
  from Cons.prems have "stale (fst (step_player env s c)) j"
    by (rule step_player_stale)
  then have "stale (fst (run_player env (fst (step_player env s c)) cs)) j"
    by (rule Cons.IH)
  then show ?case by (simp add: split_beta)
qed

lemma run_player_returned:
  "\<forall>j \<in> set (snd (run_player env s cs)).
      sound_id_counter s < j \<and> j \<le> sound_id_counter (fst (run_player env s cs))"
proof (induction cs arbitrary: s)
  case Nil
  show ?case by simp
next
  case (Cons c cs)
  let ?s1 = "fst (step_player env s c)"
  have mono: "sound_id_counter s \<le> sound_id_counter ?s1"
    by (rule step_player_counter)
  have later: "sound_id_counter ?s1 \<le> sound_id_counter (fst (run_player env ?s1 cs))"
  proof (induction cs arbitrary: s c)
    case Nil show ?case by simp
  next
    case (Cons d ds)
    show ?case using Cons [of "fst (step_player env s c)" d] step_player_counter [of "fst (step_player env s c)" env d]
      by (simp add: split_beta)
  qed
  show ?case
    using Cons.IH [of ?s1] mono later step_player_returned [of env s c]
    by (cases "snd (step_player env s c)") (auto simp: split_beta)
qed

lemma run_player_distinct: "distinct (snd (run_player env s cs))"
proof (induction cs arbitrary: s)
  case Nil
  show ?case by simp
next
  case (Cons c cs)
  show ?case
    using Cons.IH [of "fst (step_player env s c)"]
      run_player_returned [of env "fst (step_player env s c)" cs]
      step_player_returned [of env s c]
    by (cases "snd (step_player env s c)") (auto simp: split_beta)
qed

text \<open>
  C6. In every state the engine reaches from its initial state, for a path that
  \<open>load_audio\<close> decodes, \<open>play_sound\<close> with \<open>overlap\<close> false returns the counter
  plus one, and the table afterwards holds exactly the new voice. The table is cleared
  and the voice added in one transition of the model (the block under the lock), so no
  other call sees the table in between. The returned identifier differs from every
  identifier returned before, which are pairwise different, and after any further calls
  none of those earlier identifiers is found in the table.
\<close>

theorem play_without_overlap:
  assumes reach: "run_player env player_init cmds = (s, ids)"
    and decoded: "fst (load_audio env s path) = Some smp"
  shows "fst (play_sound env s path vol False) = Some (sound_id_counter s + 1)
     \<and> active_sounds (snd (play_sound env s path vol False)) =
         [(sound_id_counter s + 1,
           \<lparr>samples = smp, position = 0, volume = vol, file_path = path, paused = False\<rparr>)]
     \<and> distinct (ids @ [sound_id_counter s + 1])
     \<and> (\<forall>j \<in> set ids. \<forall>later.
           map_of (active_sounds
             (fst (run_player env (snd (play_sound env s path vol False)) later))) j = None)"
proof -
  let ?s' = "snd (play_sound env s path vol False)"
  let ?new = "sound_id_counter s + 1"
  from decoded obtain s1 where l: "load_audio env s path = (Some smp, s1)"
    by (cases "load_audio env s path") auto
  have ret: "fst (play_sound env s path vol False) = Some ?new"
    using decoded by (simp add: play_sound_result)
  have tbl: "active_sounds ?s' =
      [(?new, \<lparr>samples = smp, position = 0, volume = vol, file_path = path, paused = False\<rparr>)]"
    using l load_audio_table(2) [of env s path] by (simp add: play_sound_def Let_def)
  have old: "\<forall>j \<in> set ids. j \<le> sound_id_counter s"
    using run_player_returned [of env player_init cmds] reach by simp
  have fresh: "distinct (ids @ [?new])"
    using run_player_distinct [of env player_init cmds] reach old by auto
  have gone: "map_of (active_sounds (fst (run_player env ?s' later))) j = None"
    if "j \<in> set ids" for j later
  proof -
    from that old have "j \<le> sound_id_counter s" by simp
    then have "stale ?s' j"
      using tbl decoded by (simp add: stale_def play_sound_result)
    then have "stale (fst (run_player env ?s' later)) j"
      by (rule run_player_stale)
    then show ?thesis
      by (simp add: stale_def map_of_eq_None_iff)
  qed
  from ret tbl fresh gone show ?thesis by blast
qed


lemma mono_decoded:
  "load_audio studio s ''mono.wav'' =
     (case audio_cache s ''mono.wav'' of
        Some cached \<Rightarrow> (Some cached, s)
      | None \<Rightarrow> (Some (Pcm 2 [[1/2, 1/2], [1/4, 1/4]]),
                  s\<lparr>audio_cache := (audio_cache s)(''mono.wav'' \<mapsto> Pcm 2 [[1/2, 1/2], [1/4, 1/4]])\<rparr>))"
  by (simp add: load_audio_def studio_def resample_if_needed_def SAMPLE_RATE_def
      split: option.splits)

lemma two_plays_ids: "snd (run_player studio player_init two_plays) = [1, 2]"
  by (simp add: two_plays_def split_beta play_sound_def mono_decoded Let_def player_init_def)

lemma two_plays_cache:
  "audio_cache (fst (run_player studio player_init two_plays)) ''mono.wav'' =
     Some (Pcm 2 [[1/2, 1/2], [1/4, 1/4]])"
  by (simp add: two_plays_def split_beta play_sound_def mono_decoded Let_def player_init_def)

lemma two_plays_counter:
  "sound_id_counter (fst (run_player studio player_init two_plays)) = 2"
  by (simp add: two_plays_def split_beta play_sound_def mono_decoded Let_def player_init_def)

theorem play_without_overlap_witness:
  "run_player studio player_init two_plays =
     (fst (run_player studio player_init two_plays), [1, 2])
   \<and> fst (load_audio studio (fst (run_player studio player_init two_plays)) ''mono.wav'') =
       Some (Pcm 2 [[1/2, 1/2], [1/4, 1/4]])
   \<and> fst (play_sound studio (fst (run_player studio player_init two_plays))
            ''mono.wav'' (3/2) False) = Some 3
   \<and> map fst (active_sounds (snd (play_sound studio
            (fst (run_player studio player_init two_plays)) ''mono.wav'' (3/2) False))) = [3]
   \<and> map_of (active_sounds (fst (run_player studio
            (snd (play_sound studio (fst (run_player studio player_init two_plays))
                    ''mono.wav'' (3/2) False))
            one_block))) 1 = None"
proof -
  let ?s = "fst (run_player studio player_init two_plays)"
  have reach: "run_player studio player_init two_plays = (?s, [1, 2])"
    using two_plays_ids by (metis prod.collapse)
  have decoded: "fst (load_audio studio ?s ''mono.wav'') = Some (Pcm 2 [[1/2, 1/2], [1/4, 1/4]])"
    by (simp add: mono_decoded two_plays_cache)
  note w = play_without_overlap [OF reach decoded, of "3/2"]
  from w have a: "fst (play_sound studio ?s ''mono.wav'' (3/2) False) = Some 3"
    by (simp add: two_plays_counter)
  from w have b: "map fst (active_sounds (snd (play_sound studio ?s ''mono.wav'' (3/2) False))) = [3]"
    by (simp add: two_plays_counter)
  from w have c: "map_of (active_sounds (fst (run_player studio
            (snd (play_sound studio ?s ''mono.wav'' (3/2) False)) one_block))) 1 = None"
    by auto
  from reach decoded a b c show ?thesis by blast
qed

lemma ensure_stereo_channels:
  "ncols (ensure_stereo (Arr1 xs)) = CHANNELS"
  "ncols (ensure_stereo (Arr2 c rs)) = (if c = 1 \<or> c = 2 then CHANNELS else c)"
  by (simp_all add: CHANNELS_def)

text \<open>
  C2 fails for a file of more than two channels: the block under
  \<^verbatim>\<open># Ensure stereo\<close> handles the one-dimensional and the one-column array only.
  A three-channel file at the engine's rate is returned with three columns, and the
  first mix callback over a voice playing it raises \<^verbatim>\<open>ValueError\<close>.
\<close>

theorem surround_file_stays_surround:
  "fst (load_audio studio player_init ''surround.wav'') = Some (Pcm 3 [[1, 2, 3]])
   \<and> ncols (Pcm 3 [[1, 2, 3]]) \<noteq> CHANNELS
   \<and> snd (audio_callback env surround_playing 1) = Inl ValueError"
  by (simp add: surround_playing_def play_sound_def load_audio_def studio_def
      resample_if_needed_def SAMPLE_RATE_def CHANNELS_def player_init_def Let_def
      audio_callback_def mix_one_def len_def iadd_prefix_def scaled_chunk_def)

section \<open>The mix callback\<close>

lemma add_rows_nth:
  "c < length a \<Longrightarrow> c < length b \<Longrightarrow> add_rows env a b ! c = f32_add env (a ! c) (b ! c)"
  by (simp add: add_rows_def)

lemma add_rows_length: "length (add_rows env a b) = min (length a) (length b)"
  by (simp add: add_rows_def)

lemma prefix_add_nth:
  assumes "length rs \<le> length mixed" and "j < length mixed"
  shows "(map2 (add_rows env) (take (length rs) mixed) rs @ drop (length rs) mixed) ! j =
           (if j < length rs then add_rows env (mixed ! j) (rs ! j) else mixed ! j)"
  using assms by (auto simp: nth_append min_def)

lemma prefix_add_length:
  "length rs \<le> length mixed \<Longrightarrow>
     length (map2 (add_rows env) (take (length rs) mixed) rs @ drop (length rs) mixed) = length mixed"
  by simp


lemma block_ok_row: "block_ok frames mixed \<Longrightarrow> j < frames \<Longrightarrow> length (mixed ! j) = CHANNELS"
  by (simp add: block_ok_def list_all_length)

lemma stereo_row:
  "stereo a \<Longrightarrow> i < len a \<Longrightarrow> length (rows a ! i) = CHANNELS"
  by (simp add: stereo_def len_def list_all_length)

lemma mix_one_paused:
  "paused sd \<Longrightarrow> mix_one env master frames sd mixed = Inr (sd, mixed, False)"
  by (simp add: mix_one_def)

lemma mix_one_nothing_left:
  "\<not> paused sd \<Longrightarrow> min frames (len (samples sd) - position sd) = 0 \<Longrightarrow>
     mix_one env master frames sd mixed = Inr (sd, mixed, at_end sd)"
  by (auto simp: mix_one_def Let_def at_end_def min_def split: if_splits)

lemma mix_one_copy:
  assumes run: "\<not> paused sd"
    and n: "n = min frames (len (samples sd) - position sd)" "0 < n"
    and st: "ncols (samples sd) = CHANNELS"
  shows "mix_one env master frames sd mixed =
     Inr (sd\<lparr>position := position sd + n\<rparr>,
          map2 (add_rows env) (take n mixed)
            (map (map (\<lambda>x. f32_scale env (f32_scale env x (volume sd)) master))
               (take n (drop (position sd) (rows (samples sd))))) @ drop n mixed,
          len (samples sd) \<le> position sd + n)"
proof -
  have tc: "min (int frames) (int (len (samples sd)) - int (position sd)) = int n"
    using n by (auto simp: min_def)
  have ln: "length (rows (scaled_chunk env sd n master)) = n"
    using n by (simp add: scaled_chunk_def len_def)
  have nc: "ncols (scaled_chunk env sd n master) = CHANNELS"
    using st by (simp add: scaled_chunk_def)
  have "iadd_prefix env mixed (scaled_chunk env sd n master) =
          Inr (map2 (add_rows env) (take n mixed) (rows (scaled_chunk env sd n master)) @ drop n mixed)"
    by (simp add: iadd_prefix_def Let_def nc ln)
  then have add: "iadd_prefix env mixed (scaled_chunk env sd n master) =
          Inr (map2 (add_rows env) (take n mixed)
            (map (map (\<lambda>x. f32_scale env (f32_scale env x (volume sd)) master))
               (take n (drop (position sd) (rows (samples sd))))) @ drop n mixed)"
    by (simp add: scaled_chunk_def)
  show ?thesis
    unfolding mix_one_def Let_def tc using run n(2) add by simp
qed

lemma mix_one_stereo:
  assumes st: "stereo (samples sd)" and ok: "block_ok frames mixed"
  shows "\<exists>mixed'.
           mix_one env master frames sd mixed =
             Inr (advance frames sd, mixed', \<not> paused sd \<and> at_end (advance frames sd))
           \<and> block_ok frames mixed'
           \<and> (\<forall>j < frames. \<forall>c < CHANNELS.
                 mixed' ! j ! c = mix_in env master frames j c (mixed ! j ! c) sd)"
proof (cases "paused sd")
  case True
  then show ?thesis
    using ok by (simp add: mix_one_paused advance_def mix_in_def)
next
  case run: False
  define n where "n = min frames (len (samples sd) - position sd)"
  have mix: "mix_in env master frames j c acc sd =
      (if j < n
       then f32_add env acc
              (f32_scale env
                 (f32_scale env (rows (samples sd) ! (position sd + j) ! c) (volume sd)) master)
       else acc)"
    for j c acc
    using run by (simp add: mix_in_def n_def)
  show ?thesis
  proof (cases "n = 0")
    case True
    then have "mix_one env master frames sd mixed = Inr (sd, mixed, at_end sd)"
      using run by (simp add: mix_one_nothing_left n_def)
    moreover have "advance frames sd = sd"
      using run True by (simp add: advance_def n_def)
    moreover have "mix_in env master frames j c acc sd = acc" for j c acc
      using True by (simp add: mix)
    ultimately show ?thesis
      using run ok by simp
  next
    case False
    then have pos: "0 < n" by simp
    let ?chunk = "map (map (\<lambda>x. f32_scale env (f32_scale env x (volume sd)) master))
                    (take n (drop (position sd) (rows (samples sd))))"
    let ?mixed' = "map2 (add_rows env) (take n mixed) ?chunk @ drop n mixed"
    have nc: "ncols (samples sd) = CHANNELS"
      using st by (simp add: stereo_def)
    have step: "mix_one env master frames sd mixed =
       Inr (sd\<lparr>position := position sd + n\<rparr>, ?mixed', len (samples sd) \<le> position sd + n)"
      using mix_one_copy [OF run n_def pos nc] .
    have adv: "advance frames sd = sd\<lparr>position := position sd + n\<rparr>"
      using run by (simp add: advance_def n_def)
    have lc: "length ?chunk = n" and nle: "n \<le> frames" and nrem: "n \<le> len (samples sd) - position sd"
      by (simp_all add: n_def len_def)
    have lm: "length mixed = frames"
      using ok by (simp add: block_ok_def)
    have chunk_row: "?chunk ! j =
        map (\<lambda>x. f32_scale env (f32_scale env x (volume sd)) master)
          (rows (samples sd) ! (position sd + j))"
      if "j < n" for j
      using that nrem by (simp add: len_def)
    have src_len: "length (rows (samples sd) ! (position sd + j)) = CHANNELS" if "j < n" for j
      using that nrem st by (intro stereo_row) auto
    have row: "?mixed' ! j = (if j < n then add_rows env (mixed ! j) (?chunk ! j) else mixed ! j)"
      if "j < frames" for j
    proof -
      have "length ?chunk \<le> length mixed" "j < length mixed"
        using that lc lm nle by simp_all
      from prefix_add_nth [OF this] show ?thesis
        unfolding lc .
    qed
    have len': "length ?mixed' = frames"
    proof -
      have "length ?chunk \<le> length mixed"
        using lc lm nle by simp
      from prefix_add_length [OF this] show ?thesis
        unfolding lc lm .
    qed
    have rows_ok: "length (?mixed' ! j) = CHANNELS" if "j < frames" for j
      using that row [OF that] block_ok_row [OF ok that] chunk_row [of j] src_len [of j]
      by (simp add: add_rows_length)
    have ok': "block_ok frames ?mixed'"
      using len' rows_ok by (simp add: block_ok_def list_all_length)
    have val: "?mixed' ! j ! c = mix_in env master frames j c (mixed ! j ! c) sd"
      if "j < frames" "c < CHANNELS" for j c
    proof (cases "j < n")
      case True
      have "?mixed' ! j ! c = add_rows env (mixed ! j) (?chunk ! j) ! c"
        using row [OF that(1)] True by simp
      also have "\<dots> = f32_add env (mixed ! j ! c) (?chunk ! j ! c)"
        using that block_ok_row [OF ok that(1)] chunk_row [OF True] src_len [OF True]
        by (intro add_rows_nth) simp_all
      also have "?chunk ! j ! c =
          f32_scale env (f32_scale env (rows (samples sd) ! (position sd + j) ! c) (volume sd)) master"
        using that(2) chunk_row [OF True] src_len [OF True] by simp
      finally show ?thesis
        using True by (simp add: mix)
    next
      case False
      then show ?thesis
        using row [OF that(1)] by (simp add: mix)
    qed
    from step adv ok' val run show ?thesis
      by (auto simp: at_end_def)
  qed
qed

lemma mix_loop_stereo:
  assumes "\<forall>(i, sd) \<in> set tbl. stereo (samples sd)" and "block_ok frames mixed"
  shows "\<exists>out.
           mix_loop env master frames tbl mixed =
             (map (\<lambda>(i, sd). (i, advance frames sd)) tbl,
              Inr (out, map fst (filter (\<lambda>(i, sd). \<not> paused sd \<and> at_end (advance frames sd)) tbl)))
           \<and> block_ok frames out
           \<and> (\<forall>j < frames. \<forall>c < CHANNELS.
                 out ! j ! c =
                   foldl (mix_in env master frames j c) (mixed ! j ! c) (map snd tbl))"
  using assms
proof (induction tbl arbitrary: mixed)
  case Nil
  then show ?case by simp
next
  case (Cons p tbl)
  obtain sid sd where p: "p = (sid, sd)" by (cases p)
  from Cons.prems(1) have st: "stereo (samples sd)"
    and rest: "\<forall>(i, sd) \<in> set tbl. stereo (samples sd)"
    by (simp_all add: p)
  from mix_one_stereo [OF st Cons.prems(2), of env master]
  obtain mixed' where one: "mix_one env master frames sd mixed =
        Inr (advance frames sd, mixed', \<not> paused sd \<and> at_end (advance frames sd))"
    and ok': "block_ok frames mixed'"
    and val': "\<forall>j < frames. \<forall>c < CHANNELS.
                 mixed' ! j ! c = mix_in env master frames j c (mixed ! j ! c) sd"
    by blast
  from Cons.IH [OF rest ok']
  obtain out where loop: "mix_loop env master frames tbl mixed' =
        (map (\<lambda>(i, sd). (i, advance frames sd)) tbl,
         Inr (out, map fst (filter (\<lambda>(i, sd). \<not> paused sd \<and> at_end (advance frames sd)) tbl)))"
    and ok: "block_ok frames out"
    and val: "\<forall>j < frames. \<forall>c < CHANNELS.
                 out ! j ! c = foldl (mix_in env master frames j c) (mixed' ! j ! c) (map snd tbl)"
    by blast
  have "mix_loop env master frames (p # tbl) mixed =
          (map (\<lambda>(i, sd). (i, advance frames sd)) (p # tbl),
           Inr (out, map fst (filter (\<lambda>(i, sd). \<not> paused sd \<and> at_end (advance frames sd)) (p # tbl))))"
    by (simp add: p one loop)
  moreover have "\<forall>j < frames. \<forall>c < CHANNELS.
      out ! j ! c = foldl (mix_in env master frames j c) (mixed ! j ! c) (map snd (p # tbl))"
    using val val' by (simp add: p)
  ultimately show ?case using ok by blast
qed

lemma delete_all_filter:
  "foldl (\<lambda>t i. AList.delete i t) tbl ids = filter (\<lambda>(k, v). k \<notin> set ids) tbl"
proof (induction ids arbitrary: tbl)
  case Nil
  show ?case by simp
next
  case (Cons i ids)
  show ?case
    unfolding foldl_Cons Cons.IH
    by (auto simp: AList.delete_eq intro: filter_cong)
qed

lemma delete_finished:
  assumes "distinct (map fst tbl)"
  shows "filter (\<lambda>(k, v). k \<notin> set (map fst (filter P tbl))) tbl = filter (\<lambda>x. \<not> P x) tbl"
proof (rule filter_cong [OF refl])
  fix x
  assume x: "x \<in> set tbl"
  obtain k v where kv: "x = (k, v)" by (cases x)
  have "k \<in> set (map fst (filter P tbl)) \<longleftrightarrow> P (k, v)"
  proof
    assume "k \<in> set (map fst (filter P tbl))"
    then obtain v' where v': "(k, v') \<in> set tbl" "P (k, v')" by auto
    with assms x kv have "v' = v"
      by (meson eq_key_imp_eq_value)
    with v' show "P (k, v)" by simp
  next
    assume "P (k, v)"
    with x kv show "k \<in> set (map fst (filter P tbl))" by force
  qed
  then show "(case x of (k, v) \<Rightarrow> k \<notin> set (map fst (filter P tbl))) = (\<not> P x)"
    by (simp add: kv)
qed

lemma advance_keys: "map fst (map (\<lambda>(i, sd). (i, advance frames sd)) tbl) = map fst tbl"
  by (induction tbl) auto

lemma finished_after_advance:
  "map fst (filter (\<lambda>(i, sd). \<not> paused sd \<and> at_end (advance frames sd)) tbl) =
   map fst (filter (\<lambda>(i, sd). \<not> paused sd \<and> at_end sd)
              (map (\<lambda>(i, sd). (i, advance frames sd)) tbl))"
  by (induction tbl) (auto simp: advance_def)

lemma audio_callback_stereo:
  assumes st: "\<forall>(i, sd) \<in> set (active_sounds s). stereo (samples sd)"
    and keys: "distinct (map fst (active_sounds s))"
  shows "\<exists>out.
      snd (audio_callback env s frames) = Inr out
      \<and> block_ok frames out
      \<and> (\<forall>j < frames. \<forall>c < CHANNELS.
            out ! j ! c =
              foldl (mix_in env (master_volume s) frames j c) (f32_zero env)
                (map snd (active_sounds s)))
      \<and> active_sounds (fst (audio_callback env s frames)) =
          filter (\<lambda>(i, sd). paused sd \<or> \<not> at_end sd)
            (map (\<lambda>(i, sd). (i, advance frames sd)) (active_sounds s))"
proof -
  let ?silence = "replicate frames (replicate CHANNELS (f32_zero env))"
  let ?adv = "map (\<lambda>(i, sd). (i, advance frames sd)) (active_sounds s)"
  let ?fin = "\<lambda>(i, sd). \<not> paused sd \<and> at_end (advance frames sd)"
  have ok0: "block_ok frames ?silence"
    by (simp add: block_ok_def list_all_length)
  from mix_loop_stereo [OF st ok0, of env "master_volume s"]
  obtain out where loop: "mix_loop env (master_volume s) frames (active_sounds s) ?silence =
        (?adv, Inr (out, map fst (filter ?fin (active_sounds s))))"
    and ok: "block_ok frames out"
    and val: "\<forall>j < frames. \<forall>c < CHANNELS.
        out ! j ! c =
          foldl (mix_in env (master_volume s) frames j c) (?silence ! j ! c)
            (map snd (active_sounds s))"
    by blast
  have fin_adv: "map fst (filter ?fin (active_sounds s)) =
                 map fst (filter (\<lambda>(i, sd). \<not> paused sd \<and> at_end sd) ?adv)"
    by (rule finished_after_advance)
  have dk: "distinct (map fst ?adv)"
    using keys by (simp only: advance_keys)
  have tbl: "foldl (\<lambda>t i. AList.delete i t) ?adv (map fst (filter ?fin (active_sounds s))) =
        filter (\<lambda>(i, sd). paused sd \<or> \<not> at_end sd) ?adv"
    unfolding delete_all_filter fin_adv delete_finished [OF dk]
    by (rule filter_cong) auto
  have out: "snd (audio_callback env s frames) = Inr out"
    by (simp add: audio_callback_def Let_def loop)
  have new: "active_sounds (fst (audio_callback env s frames)) =
        filter (\<lambda>(i, sd). paused sd \<or> \<not> at_end sd) ?adv"
    using tbl by (simp add: audio_callback_def Let_def loop)
  have val0: "\<forall>j < frames. \<forall>c < CHANNELS.
        out ! j ! c =
          foldl (mix_in env (master_volume s) frames j c) (f32_zero env)
            (map snd (active_sounds s))"
    using val by (simp add: CHANNELS_def)
  from out ok val0 new show ?thesis by blast
qed

text \<open>
  C1 (amended). For every invocation of the mix callback on a table whose buffers all
  have the engine's two channels, the callback returns a block of the requested number
  of frames. Each sample of the block starts as the \<^verbatim>\<open>float32\<close> zero and takes
  up the voices in the order of the table: for a voice that is not paused, in the first
  \<open>min frames remaining\<close> frames, the sample at the cursor plus the frame index is
  multiplied by the voice's gain, the product by the master gain, and the result is
  added to the mixed sample, each operation being the \<^verbatim>\<open>float32\<close> one of the
  backend, whatever it rounds or overflows to; nothing is clamped. The cursor of each
  voice that is not paused advances by the copied length, and every voice that is not
  paused and whose cursor has reached the end of its buffer is removed. A paused voice
  stays in the table as it is, also when its cursor is at the end of its buffer. In
  particular, with master gain 1 and two voices of gains \<open>g1\<close> and \<open>g2\<close> that are not
  paused, the output sample is \<open>(0 + (s1 * g1) * 1) + (s2 * g2) * 1\<close> in that
  arithmetic, in every frame in which both voices have samples left.
  (The table is a dictionary: its keys are pairwise different.)
\<close>

theorem mix_callback_block:
  assumes st: "\<forall>(i, sd) \<in> set (active_sounds s). stereo (samples sd)"
    and keys: "distinct (map fst (active_sounds s))"
  shows "\<exists>out.
      snd (audio_callback env s frames) = Inr out
      \<and> length out = frames
      \<and> (\<forall>j < frames. length (out ! j) = CHANNELS
            \<and> (\<forall>c < CHANNELS.
                  out ! j ! c =
                    foldl (mix_in env (master_volume s) frames j c) (f32_zero env)
                      (map snd (active_sounds s))))
      \<and> active_sounds (fst (audio_callback env s frames)) =
          filter (\<lambda>(i, sd). paused sd \<or> \<not> at_end sd)
            (map (\<lambda>(i, sd). (i, advance frames sd)) (active_sounds s))
      \<and> (\<forall>i1 v1 i2 v2 j c.
            active_sounds s = [(i1, v1), (i2, v2)] \<and> master_volume s = 1
            \<and> \<not> paused v1 \<and> \<not> paused v2 \<and> j < frames \<and> c < CHANNELS
            \<and> j < len (samples v1) - position v1 \<and> j < len (samples v2) - position v2
            \<longrightarrow> out ! j ! c =
                  f32_add env
                    (f32_add env (f32_zero env)
                       (f32_scale env
                          (f32_scale env (rows (samples v1) ! (position v1 + j) ! c) (volume v1)) 1))
                    (f32_scale env
                       (f32_scale env (rows (samples v2) ! (position v2 + j) ! c) (volume v2)) 1))"
proof -
  from audio_callback_stereo [OF st keys, of env frames]
  obtain out where out: "snd (audio_callback env s frames) = Inr out"
    and ok: "block_ok frames out"
    and val: "\<forall>j < frames. \<forall>c < CHANNELS.
        out ! j ! c =
          foldl (mix_in env (master_volume s) frames j c) (f32_zero env)
            (map snd (active_sounds s))"
    and new: "active_sounds (fst (audio_callback env s frames)) =
          filter (\<lambda>(i, sd). paused sd \<or> \<not> at_end sd)
            (map (\<lambda>(i, sd). (i, advance frames sd)) (active_sounds s))"
    by blast
  have len: "length out = frames"
    using ok by (simp add: block_ok_def)
  have rows: "\<forall>j < frames. length (out ! j) = CHANNELS"
    using ok by (simp add: block_ok_row)
  have two: "out ! j ! c =
        f32_add env
          (f32_add env (f32_zero env)
             (f32_scale env
                (f32_scale env (rows (samples v1) ! (position v1 + j) ! c) (volume v1)) 1))
          (f32_scale env
             (f32_scale env (rows (samples v2) ! (position v2 + j) ! c) (volume v2)) 1)"
    if "active_sounds s = [(i1, v1), (i2, v2)]" "master_volume s = 1"
      "\<not> paused v1" "\<not> paused v2" "j < frames" "c < CHANNELS"
      "j < len (samples v1) - position v1" "j < len (samples v2) - position v2"
    for i1 v1 i2 v2 j c
    using val that by (simp add: mix_in_def)
  from out len rows val new two show ?thesis by blast
qed

lemma silent_paused_eval:
  "active_sounds silent_paused =
     [(1, \<lparr>samples = Pcm 2 [], position = 0, volume = 1, file_path = ''empty.wav'',
           paused = True\<rparr>)]"
  by (simp add: silent_paused_def split_beta play_sound_def load_audio_def studio_def
      resample_if_needed_def SAMPLE_RATE_def player_init_def Let_def toggle_pause_sound_def)

text \<open>
  As the claim states it, every voice whose cursor has reached the end of its buffer is
  removed. A voice that plays a file without frames and is paused before the first
  callback has its cursor at the end, and the callback leaves it in the table.
\<close>

theorem mix_callback_block_counterexample:
  "active_sounds silent_paused =
     [(1, \<lparr>samples = Pcm 2 [], position = 0, volume = 1, file_path = ''empty.wav'',
           paused = True\<rparr>)]
   \<and> at_end \<lparr>samples = Pcm 2 ([] :: real list list), position = 0, volume = 1,
           file_path = ''empty.wav'', paused = True\<rparr>
   \<and> active_sounds (fst (audio_callback studio silent_paused 2048)) =
       active_sounds silent_paused"
  by (simp add: silent_paused_eval at_end_def len_def audio_callback_def mix_one_def Let_def)

text \<open>
  The theorem at two voices of amplitude 5 under the arithmetic that rounds down and
  clips at 8: the products are 2 and 7, and their sum is clipped to 8.
\<close>

theorem mix_callback_block_witness:
  "list_all (\<lambda>(i, sd). stereo (samples sd)) (active_sounds duo)
   \<and> distinct (map fst (active_sounds duo))
   \<and> map fst (active_sounds (fst (audio_callback coarse duo 2))) = [2]
   \<and> (\<exists>out. snd (audio_callback coarse duo 2) = Inr out \<and> length out = 2
          \<and> out ! 0 ! 0 = 8)"
proof -
  have all: "list_all (\<lambda>(i, sd). stereo (samples sd)) (active_sounds duo)"
    by (simp add: duo_def stereo_def CHANNELS_def)
  then have st: "\<forall>(i, sd) \<in> set (active_sounds duo). stereo (samples sd)"
    by (simp only: list_all_iff)
  have keys: "distinct (map fst (active_sounds duo))"
    by (simp add: duo_def)
  from mix_callback_block [OF st keys, of coarse 2]
  obtain out where out: "snd (audio_callback coarse duo 2) = Inr out" "length out = 2"
    and new: "active_sounds (fst (audio_callback coarse duo 2)) =
          filter (\<lambda>(i, sd). paused sd \<or> \<not> at_end sd)
            (map (\<lambda>(i, sd). (i, advance 2 sd)) (active_sounds duo))"
    and val: "\<forall>j < 2. length (out ! j) = CHANNELS
            \<and> (\<forall>c < CHANNELS.
                  out ! j ! c =
                    foldl (mix_in coarse (master_volume duo) 2 j c) (f32_zero coarse)
                      (map snd (active_sounds duo)))"
    by blast
  have tbl: "map fst (active_sounds (fst (audio_callback coarse duo 2))) = [2]"
    unfolding new by (simp add: duo_def advance_def at_end_def len_def)
  have "out ! 0 ! 0 =
      foldl (mix_in coarse (master_volume duo) 2 0 0) (f32_zero coarse)
        (map snd (active_sounds duo))"
    using val by (simp add: CHANNELS_def)
  also have "\<dots> = 8"
    by (simp add: duo_def mix_in_def coarse_def len_def)
  finally have "out ! 0 ! 0 = 8" .
  with all keys tbl out show ?thesis by blast
qed

section \<open>Normalising chord strings\<close>

lemma split_on_no_sep: "p \<in> set (split_on d s) \<Longrightarrow> d \<notin> set p"
proof (induction s arbitrary: p)
  case Nil
  then show ?case by simp
next
  case (Cons c s)
  show ?case
  proof (cases "c = d")
    case True
    with Cons show ?thesis by auto
  next
    case False
    obtain w ws where ws: "split_on d s = w # ws"
      using split_on_nonempty [of d s] by (cases "split_on d s") auto
    with Cons False show ?thesis by auto
  qed
qed

lemma split_on_chars: "p \<in> set (split_on d s) \<Longrightarrow> set p \<subseteq> set s"
proof (induction s arbitrary: p)
  case Nil
  then show ?case by simp
next
  case (Cons c s)
  show ?case
  proof (cases "c = d")
    case True
    with Cons show ?thesis by auto
  next
    case False
    obtain w ws where ws: "split_on d s = w # ws"
      using split_on_nonempty [of d s] by (cases "split_on d s") auto
    have w: "set w \<subseteq> set s" and rest: "\<forall>q \<in> set ws. set q \<subseteq> set s"
      using Cons.IH ws by simp_all
    from Cons.prems False ws have "p = c # w \<or> p \<in> set ws" by simp
    with w rest show ?thesis by auto
  qed
qed

lemma split_on_plain: "d \<notin> set p \<Longrightarrow> split_on d p = [p]"
  by (induction p) auto

lemma split_on_append:
  "d \<notin> set p \<Longrightarrow> split_on d (p @ d # s) = p # split_on d s"
  by (induction p) auto

lemma split_on_join:
  "ps \<noteq> [] \<Longrightarrow> \<forall>p \<in> set ps. d \<notin> set p \<Longrightarrow> split_on d (join [d] ps) = ps"
proof (induction ps)
  case Nil
  then show ?case by simp
next
  case (Cons p ps)
  show ?case
  proof (cases ps)
    case Nil
    with Cons.prems show ?thesis by (simp add: split_on_plain)
  next
    case (Cons q qs)
    with Cons.IH Cons.prems have "split_on d (join [d] (q # qs)) = q # qs" by simp
    moreover have "d \<notin> set p" using Cons.prems by simp
    ultimately show ?thesis
      using split_on_append [of d p "join [d] (q # qs)"] by (simp add: Cons)
  qed
qed

lemma char_of_of_char_nat: "char_of (of_char c :: nat) = c"
  by simp

lemma lower_char_code: "(of_char (lower_char c) :: nat) =
   (if 65 \<le> (of_char c :: nat) \<and> (of_char c :: nat) \<le> 90 then of_char c + 32 else of_char c)"
  by (simp add: lower_char_def Let_def of_char_of)

lemma lower_char_idem: "lower_char (lower_char c) = lower_char c"
proof -
  have "(of_char (lower_char (lower_char c)) :: nat) = of_char (lower_char c)"
    by (simp add: lower_char_code)
  then show ?thesis by (metis of_char_eq_iff)
qed

lemma lower_idem: "lower (lower s) = lower s"
  by (simp add: lower_def lower_char_idem)

lemma lower_char_plus: "lower_char c = CHR ''+'' \<longleftrightarrow> c = CHR ''+''"
proof -
  have "lower_char c = CHR ''+'' \<longleftrightarrow> (of_char (lower_char c) :: nat) = of_char CHR ''+''"
    by (metis of_char_eq_iff)
  also have "\<dots> \<longleftrightarrow> (of_char c :: nat) = of_char CHR ''+''"
    by (simp add: lower_char_code)
  also have "\<dots> \<longleftrightarrow> c = CHR ''+''"
    by (metis of_char_eq_iff)
  finally show ?thesis .
qed

lemma is_space_lower: "is_space (lower_char c) = is_space c"
  by (simp add: is_space_def Let_def lower_char_code)


lemma lower_fixed_iff: "lower s = s \<longleftrightarrow> (\<forall>c \<in> set s. lower_char c = c)"
  by (simp add: lower_def map_idI) (metis map_eq_conv map_ident)

lemma lower_join: "lower (join ''+'' ps) = join ''+'' (map lower ps)"
proof (induction ps)
  case Nil
  show ?case by (simp add: lower_def)
next
  case (Cons p ps)
  have plus: "lower_char CHR ''+'' = CHR ''+''"
    by (simp add: lower_char_plus)
  show ?case
  proof (cases ps)
    case Nil
    then show ?thesis by simp
  next
    case (Cons q qs)
    with Cons.IH show ?thesis by (simp add: lower_def plus)
  qed
qed

lemma strip_chars: "set (strip s) \<subseteq> set s"
  unfolding strip_def
  by (metis set_dropWhileD set_rev subsetI)

lemma strip_no_leading_space: "dropWhile is_space (strip s) = strip s"
proof -
  define t where "t = dropWhile is_space s"
  define u where "u = rev (dropWhile is_space (rev t))"
  have t: "t = [] \<or> \<not> is_space (hd t)"
    unfolding t_def by (metis hd_dropWhile)
  have split: "t = u @ rev (takeWhile is_space (rev t))"
    unfolding u_def by (metis rev_append rev_rev_ident takeWhile_dropWhile_id)
  have "u = [] \<or> \<not> is_space (hd u)"
  proof (cases "u = []")
    case True
    then show ?thesis by simp
  next
    case False
    with split have "hd u = hd t" "t \<noteq> []"
      by (metis hd_append2, metis append_is_Nil_conv)
    with t show ?thesis by simp
  qed
  then have "dropWhile is_space u = u"
    by (simp add: dropWhile_eq_self_iff)
  then show ?thesis
    by (simp add: strip_def u_def t_def)
qed

lemma strip_idem: "strip (strip s) = strip s"
proof -
  have "strip (strip s) = rev (dropWhile is_space (rev (strip s)))"
    unfolding strip_def [of "strip s"] strip_no_leading_space ..
  also have "\<dots> = strip s"
    by (simp add: strip_def)
  finally show ?thesis .
qed

lemma first_modifier_member:
  "first_modifier ms p = Some m \<Longrightarrow> m \<in> set ms"
  by (induction ms) (auto split: if_splits)

lemma modifier_fixed:
  assumes "m \<in> set modifiers"
  shows "normalize_part m = m" and "lower m = m" and "CHR ''+'' \<notin> set m"
proof -
  from assms have cases: "m = ''ctrl'' \<or> m = ''alt'' \<or> m = ''shift'' \<or> m = ''cmd'' \<or> m = ''win''"
    by (simp add: modifiers_def)
  have np: "normalize_part ''ctrl'' = ''ctrl''" "normalize_part ''alt'' = ''alt''"
    "normalize_part ''shift'' = ''shift''" "normalize_part ''cmd'' = ''cmd''"
    "normalize_part ''win'' = ''win''"
    by code_simp+
  have lo: "lower ''ctrl'' = ''ctrl''" "lower ''alt'' = ''alt''"
    "lower ''shift'' = ''shift''" "lower ''cmd'' = ''cmd''"
    "lower ''win'' = ''win''"
    by code_simp+
  from cases np show "normalize_part m = m" by auto
  from cases lo show "lower m = m" by auto
  from cases show "CHR ''+'' \<notin> set m" by auto
qed

lemma normalize_part_cases:
  "(normalize_part p \<in> set modifiers) \<or>
   (normalize_part p = strip p \<and> first_modifier modifiers (strip p) = None)"
  by (auto simp: normalize_part_def split: option.splits dest: first_modifier_member)

lemma normalize_part_idem: "normalize_part (normalize_part p) = normalize_part p"
  using normalize_part_cases [of p]
proof
  assume "normalize_part p \<in> set modifiers"
  then show ?thesis by (rule modifier_fixed)
next
  assume "normalize_part p = strip p \<and> first_modifier modifiers (strip p) = None"
  then show ?thesis by (simp add: normalize_part_def [of "strip p"] strip_idem)
qed

lemma normalize_part_no_plus: "CHR ''+'' \<notin> set p \<Longrightarrow> CHR ''+'' \<notin> set (normalize_part p)"
  using normalize_part_cases [of p] strip_chars [of p]
  by (auto dest: modifier_fixed(3))

lemma normalize_part_lower: "lower p = p \<Longrightarrow> lower (normalize_part p) = normalize_part p"
  using normalize_part_cases [of p] strip_chars [of p]
  by (auto simp: lower_fixed_iff dest: modifier_fixed(2))

lemma lower_part_fixed: "q \<in> set (split_on d (lower h)) \<Longrightarrow> lower q = q"
proof -
  assume "q \<in> set (split_on d (lower h))"
  then have "set q \<subseteq> set (lower h)"
    by (rule split_on_chars)
  then have "\<forall>c \<in> set q. lower_char c = c"
    by (auto simp: lower_def lower_char_idem)
  then show ?thesis
    by (simp only: lower_fixed_iff)
qed

lemma normalize_hotkey_string_idem:
  "normalize_hotkey_string (normalize_hotkey_string h) = normalize_hotkey_string h"
proof -
  define ps where "ps = sort (map normalize_part (split_on CHR ''+'' (lower h)))"
  have N: "normalize_hotkey_string h = join ''+'' ps"
    by (simp add: normalize_hotkey_string_def ps_def)
  have elems: "set ps = normalize_part ` set (split_on CHR ''+'' (lower h))"
    by (simp add: ps_def)
  have nonempty: "ps \<noteq> []"
    using split_on_nonempty [of "CHR ''+''" "lower h"] elems by auto
  have no_plus: "\<forall>p \<in> set ps. CHR ''+'' \<notin> set p"
    using elems by (auto dest: split_on_no_sep normalize_part_no_plus)
  have low: "map lower ps = ps"
    using elems by (intro map_idI) (auto dest: lower_part_fixed normalize_part_lower)
  have parts: "map normalize_part ps = ps"
    using elems by (intro map_idI) (auto simp: normalize_part_idem)
  have sorted: "sort ps = ps"
    by (simp add: ps_def sorted_sort_id)
  have "lower (join ''+'' ps) = join ''+'' ps"
    by (simp add: lower_join low)
  moreover have "split_on CHR ''+'' (join ''+'' ps) = ps"
    using split_on_join [OF nonempty no_plus] by simp
  ultimately have "normalize_hotkey_string (join ''+'' ps) = join ''+'' ps"
    by (simp add: normalize_hotkey_string_def parts sorted)
  then show ?thesis by (simp add: N)
qed

text \<open>
  The parts of C4 that hold: the normalisation of chord strings is idempotent (above),
  casing, blanks, modifier variants and key order do not matter, and the chord \<open>1\<close>
  fires on a press whose character is \<open>!\<close>.
\<close>

lemma chord_any_casing_or_order:
  "normalize_hotkey_string ''Ctrl+A'' = ''a+ctrl''"
  "normalize_hotkey_string ''a+CTRL'' = ''a+ctrl''"
  "normalize_hotkey_string '' A + Ctrl_L '' = ''a+ctrl''"
  by code_simp+

lemma one_fires_on_bang:
  "snd (run_manager manager_init [Register ''1'', Press key_bang]) = [hotkey_triggered ''1'']"
  by code_simp

text \<open>
  C4 fails where the two normalisations differ: \<^verbatim>\<open>_normalize_key\<close> maps a
  shifted symbol to its base key, \<^verbatim>\<open>_normalize_hotkey_string\<close> (documented as
  using the same logic as key events) does not. The chord string \<open>!\<close> is registered
  as \<open>!\<close>, the live press of that key is the token \<open>1\<close>, and the chord does not fire
  when Shift and the key are pressed.
\<close>

theorem shifted_symbol_chord_never_fires:
  "normalize_hotkey_string ''!'' = ''!''
   \<and> normalize_key key_bang = ''1''
   \<and> hotkeys (register manager_init ''!'') = [''!'']
   \<and> snd (run_manager manager_init [Register ''!'', Press key_shift, Press key_bang]) = []"
  by code_simp

end
